theory Spec2Isabelle
  imports Main "HOL-Library.Sublist"
begin

section \<open>Go strings as byte lists\<close>

text \<open>
  A Go string is a sequence of bytes; it is modelled as \<^typ>\<open>string\<close> (a list of
  8-bit characters), so \<^term>\<open>length s\<close> is Go's \<open>len(s)\<close>.  The functions of
  package \<open>strings\<close> that the file server calls are written out below.  File paths are
  modelled for the platforms whose \<open>filepath.Separator\<close> is the slash (the Makefile
  builds for linux and darwin as well as windows); the request guard, which uses only
  packages \<open>strings\<close> and \<open>path\<close>, is modelled for every value of \<open>runtime.GOOS\<close>.
\<close>

definition Separator :: char where
  "Separator = CHR ''/''"

definition separator :: string where
  "separator = [Separator]"

definition HasPrefix :: "string \<Rightarrow> string \<Rightarrow> bool" where
  "HasPrefix s pre = prefix pre s"

definition HasSuffix :: "string \<Rightarrow> string \<Rightarrow> bool" where
  "HasSuffix s suf = suffix suf s"

definition TrimPrefix :: "string \<Rightarrow> string \<Rightarrow> string" where
  "TrimPrefix s pre = (if HasPrefix s pre then drop (length pre) s else s)"

definition Contains :: "string \<Rightarrow> string \<Rightarrow> bool" where
  "Contains s substr = sublist substr s"

text \<open>\<open>strings.TrimRight(s, cutset)\<close> for a cutset of ASCII bytes.\<close>

definition TrimRight :: "string \<Rightarrow> string \<Rightarrow> string" where
  "TrimRight s cutset = rev (dropWhile (\<lambda>c. c \<in> set cutset) (rev s))"

text \<open>
  \<open>strings.Split(s, sep)\<close> for a separator of one byte, the only way the source calls
  it: the result is never empty, and an empty \<open>s\<close> gives one empty field.
\<close>

fun Split :: "string \<Rightarrow> char \<Rightarrow> string list" where
  "Split [] sep = [[]]"
| "Split (c # cs) sep =
     (if c = sep then [] # Split cs sep
      else (c # hd (Split cs sep)) # tl (Split cs sep))"

text \<open>\<open>strings.Join(elems, sep)\<close>.\<close>

fun JoinStr :: "string list \<Rightarrow> string \<Rightarrow> string" where
  "JoinStr [] sep = []"
| "JoinStr [e] sep = e"
| "JoinStr (e # es) sep = e @ sep @ JoinStr es sep"

section \<open>Package filepath\<close>

text \<open>
  \<open>filepath.Clean\<close> as the standard library writes it for a slash-separated path with
  no volume name.  \<open>cleanLoop\<close> is the loop over the bytes of the path: its second
  argument is the unread rest \<open>path[r:]\<close>, \<open>out\<close> is the buffer written so far (its length
  is \<open>out.w\<close>) and \<open>dotdot\<close> is the index in the buffer where a \<open>..\<close> element must stop
  backtracking.  \<open>dotdotLoop\<close> is the inner loop that moves \<open>out.w\<close> back to the last
  separator.
\<close>

function dotdotLoop :: "string \<Rightarrow> nat \<Rightarrow> nat \<Rightarrow> nat" where
  "dotdotLoop out dotdot w =
     (if w > dotdot \<and> out ! w \<noteq> Separator then dotdotLoop out dotdot (w - 1) else w)"
  by pat_completeness auto
termination
  by (relation "measure (\<lambda>(out, dotdot, w). w)") auto

declare dotdotLoop.simps [simp del]

function cleanLoop :: "bool \<Rightarrow> string \<Rightarrow> string \<Rightarrow> nat \<Rightarrow> string" where
  "cleanLoop rooted [] out dotdot = out"
| "cleanLoop rooted (c # cs) out dotdot =
     (if c = Separator then cleanLoop rooted cs out dotdot
      else if c = CHR ''.'' \<and> (cs = [] \<or> hd cs = Separator) then
        cleanLoop rooted cs out dotdot
      else if c = CHR ''.'' \<and> hd cs = CHR ''.'' \<and> (tl cs = [] \<or> hd (tl cs) = Separator) then
        (if length out > dotdot then
           cleanLoop rooted (tl cs) (take (dotdotLoop out dotdot (length out - 1)) out) dotdot
         else if \<not> rooted then
           (let out' = (if length out > 0 then out @ [Separator] else out) @ ''..''
            in cleanLoop rooted (tl cs) out' (length out'))
         else cleanLoop rooted (tl cs) out dotdot)
      else
        (let out' = (if rooted \<and> length out \<noteq> 1 \<or> \<not> rooted \<and> length out \<noteq> 0
                     then out @ [Separator] else out)
         in cleanLoop rooted (dropWhile (\<lambda>x. x \<noteq> Separator) (c # cs))
              (out' @ takeWhile (\<lambda>x. x \<noteq> Separator) (c # cs)) dotdot))"
  by pat_completeness auto
termination
  by (relation "measure (\<lambda>(rooted, path, out, dotdot). length path)")
     (auto simp add: length_dropWhile_le le_imp_less_Suc)

declare cleanLoop.simps(2) [simp del]

definition Clean :: "string \<Rightarrow> string" where
  "Clean path =
     (if path = [] then ''.''
      else
        (let rooted = (hd path = Separator);
             out = (if rooted then cleanLoop True (tl path) [Separator] 1
                    else cleanLoop False path [] 0)
         in if length out = 0 then ''.'' else out))"

definition IsAbs :: "string \<Rightarrow> bool" where
  "IsAbs path = HasPrefix path ''/''"

text \<open>
  \<open>filepath.Join\<close>: the elements from the first non-empty one on are joined with the
  separator and the result is cleaned; with no non-empty element the result is empty.
\<close>

definition Join :: "string list \<Rightarrow> string" where
  "Join elem =
     (case dropWhile (\<lambda>e. e = []) elem of
        [] \<Rightarrow> []
      | es \<Rightarrow> Clean (JoinStr es separator))"

text \<open>
  \<open>filepath.Abs\<close>; the argument \<open>wd\<close> is what \<open>os.Getwd\<close> returns, \<open>None\<close> when it
  fails, and then \<open>Abs\<close> fails as well.
\<close>

definition Abs :: "string option \<Rightarrow> string \<Rightarrow> string option" where
  "Abs wd path =
     (if IsAbs path then Some (Clean path)
      else (case wd of None \<Rightarrow> None | Some d \<Rightarrow> Some (Join [d, path])))"

section \<open>The sanitized join\<close>

definition SanitizedPathJoin :: "string \<Rightarrow> string \<Rightarrow> string" where
  "SanitizedPathJoin root reqPath =
     (let root = (if root = [] then ''.'' else root);
          path = Join [root, Clean (''/'' @ reqPath)]
      in if HasSuffix reqPath ''/'' \<and> length reqPath > 1 then path @ separator else path)"

section \<open>Glob matching\<close>

text \<open>
  \<open>filepath.Match\<close> as the standard library writes it where the separator is the slash
  and the backslash escapes.  A rune is an \<^typ>\<open>int\<close>; \<open>DecodeRuneInString\<close> reads one
  UTF-8 sequence and gives the rune and its width, or \<open>RuneError\<close> and width one for bytes
  that are not well-formed UTF-8.  \<open>scanChunk\<close> splits off the next chunk of the pattern
  (what stands between stars), \<open>matchChunk\<close> matches a chunk against the start of the
  name, with \<open>classLoop\<close> and \<open>getEsc\<close> reading a character class, and \<open>Match\<close> is the
  loop over the chunks.  The results are the pairs and triples that the Go functions
  return; the error is \<open>None\<close> for \<open>nil\<close>.
\<close>

definition RuneError :: int where
  "RuneError = 0xFFFD"

definition DecodeRuneInString :: "string \<Rightarrow> int \<times> nat" where
  "DecodeRuneInString s =
     (case s of
        [] \<Rightarrow> (RuneError, 0)
      | c0 # t \<Rightarrow>
        (let s0 = (of_char c0 :: int) in
         if s0 < 0x80 then (s0, 1)
         else if s0 < 0xC2 \<or> 0xF4 < s0 then (RuneError, 1)
         else
           (let sz = (if s0 < 0xE0 then 2 else if s0 < 0xF0 then 3 else 4 :: nat);
                lo = (if s0 = 0xE0 then 0xA0 else if s0 = 0xF0 then 0x90 else 0x80 :: int);
                hi = (if s0 = 0xED then 0x9F else if s0 = 0xF4 then 0x8F else 0xBF :: int)
            in if length s < sz then (RuneError, 1)
               else
                 (let s1 = (of_char (s ! 1) :: int) in
                  if s1 < lo \<or> hi < s1 then (RuneError, 1)
                  else if sz \<le> 2 then ((s0 mod 0x20) * 0x40 + s1 mod 0x40, 2)
                  else
                    (let s2 = (of_char (s ! 2) :: int) in
                     if s2 < 0x80 \<or> 0xBF < s2 then (RuneError, 1)
                     else if sz \<le> 3 then
                       ((s0 mod 0x10) * 0x1000 + (s1 mod 0x40) * 0x40 + s2 mod 0x40, 3)
                     else
                       (let s3 = (of_char (s ! 3) :: int) in
                        if s3 < 0x80 \<or> 0xBF < s3 then (RuneError, 1)
                        else ((s0 mod 8) * 0x40000 + (s1 mod 0x40) * 0x1000
                                + (s2 mod 0x40) * 0x40 + s3 mod 0x40, 4)))))))"

datatype match_error = ErrBadPattern

fun scanLoop :: "bool \<Rightarrow> string \<Rightarrow> nat" where
  "scanLoop inrange [] = 0"
| "scanLoop inrange [c] = (if c = CHR ''*'' \<and> \<not> inrange then 0 else 1)"
| "scanLoop inrange (c # d # ds) =
     (if c = CHR 0x5C then 2 + scanLoop inrange ds
      else if c = CHR ''['' then 1 + scanLoop True (d # ds)
      else if c = CHR '']'' then 1 + scanLoop False (d # ds)
      else if c = CHR ''*'' \<and> \<not> inrange then 0
      else 1 + scanLoop inrange (d # ds))"

definition scanChunk :: "string \<Rightarrow> bool \<times> string \<times> string" where
  "scanChunk pattern =
     (let star = (pattern \<noteq> [] \<and> hd pattern = CHR ''*'');
          p = dropWhile (\<lambda>c. c = CHR ''*'') pattern;
          i = scanLoop False p
      in (star, take i p, drop i p))"

definition getEsc :: "string \<Rightarrow> int \<times> string \<times> match_error option" where
  "getEsc chunk =
     (if chunk = [] \<or> hd chunk = CHR ''-'' \<or> hd chunk = CHR '']'' then (0, [], Some ErrBadPattern)
      else
        (let chunk1 = (if hd chunk = CHR 0x5C then tl chunk else chunk) in
         if chunk1 = [] then (0, [], Some ErrBadPattern)
         else
           (let r = fst (DecodeRuneInString chunk1);
                n = snd (DecodeRuneInString chunk1);
                err1 = (if r = RuneError \<and> n = 1 then Some ErrBadPattern else None);
                nchunk = drop n chunk1;
                err = (if length nchunk = 0 then Some ErrBadPattern else err1)
            in (r, nchunk, err))))"

lemma DecodeRuneInString_size: "s \<noteq> [] \<Longrightarrow> 1 \<le> snd (DecodeRuneInString s)"
  by (cases s) (simp_all add: DecodeRuneInString_def Let_def)

lemma getEsc_shorter:
  "getEsc chunk = (r, nchunk, None) \<Longrightarrow> length nchunk < length chunk \<and> nchunk \<noteq> []"
  using DecodeRuneInString_size [of chunk] DecodeRuneInString_size [of "tl chunk"]
  by (cases chunk) (auto simp add: getEsc_def Let_def split: if_splits)

lemma getEsc_shorter':
  "(r, nchunk, None) = getEsc chunk \<Longrightarrow> length nchunk < length chunk \<and> nchunk \<noteq> []"
  using getEsc_shorter [of chunk r nchunk] by simp

function classLoop :: "string \<Rightarrow> int \<Rightarrow> bool \<Rightarrow> nat \<Rightarrow> (bool \<times> string) option" where
  "classLoop chunk r match nrange =
     (if chunk \<noteq> [] \<and> hd chunk = CHR '']'' \<and> nrange > 0 then Some (match, tl chunk)
      else
        (case getEsc chunk of
           (lo, chunk1, Some e) \<Rightarrow> None
         | (lo, chunk1, None) \<Rightarrow>
             (if hd chunk1 = CHR ''-'' then
                (case getEsc (tl chunk1) of
                   (hi, chunk2, Some e) \<Rightarrow> None
                 | (hi, chunk2, None) \<Rightarrow>
                     classLoop chunk2 r (match \<or> (lo \<le> r \<and> r \<le> hi)) (nrange + 1))
              else classLoop chunk1 r (match \<or> (lo \<le> r \<and> r \<le> lo)) (nrange + 1))))"
  by pat_completeness auto
termination
  apply (relation "measure (\<lambda>(chunk, r, match, nrange). length chunk)")
    apply simp
   apply (auto dest!: getEsc_shorter')
  done

declare classLoop.simps [simp del]

lemma classLoop_close:
  "chunk \<noteq> [] \<and> hd chunk = CHR '']'' \<and> nrange > 0
     \<Longrightarrow> classLoop chunk r match nrange = Some (match, tl chunk)"
  by (subst classLoop.simps) simp

lemma classLoop_bad1:
  "\<not> (chunk \<noteq> [] \<and> hd chunk = CHR '']'' \<and> nrange > 0) \<Longrightarrow> getEsc chunk = (lo, chunk1, Some e)
     \<Longrightarrow> classLoop chunk r match nrange = None"
  by (subst classLoop.simps) auto

lemma classLoop_bad2:
  "\<not> (chunk \<noteq> [] \<and> hd chunk = CHR '']'' \<and> nrange > 0) \<Longrightarrow> getEsc chunk = (lo, chunk1, None)
     \<Longrightarrow> hd chunk1 = CHR ''-'' \<Longrightarrow> getEsc (tl chunk1) = (hi, chunk2, Some e)
     \<Longrightarrow> classLoop chunk r match nrange = None"
  by (subst classLoop.simps) auto

lemma classLoop_range:
  "\<not> (chunk \<noteq> [] \<and> hd chunk = CHR '']'' \<and> nrange > 0) \<Longrightarrow> getEsc chunk = (lo, chunk1, None)
     \<Longrightarrow> hd chunk1 = CHR ''-'' \<Longrightarrow> getEsc (tl chunk1) = (hi, chunk2, None)
     \<Longrightarrow> classLoop chunk r match nrange
           = classLoop chunk2 r (match \<or> (lo \<le> r \<and> r \<le> hi)) (nrange + 1)"
  by (subst classLoop.simps) auto

lemma classLoop_single:
  "\<not> (chunk \<noteq> [] \<and> hd chunk = CHR '']'' \<and> nrange > 0) \<Longrightarrow> getEsc chunk = (lo, chunk1, None)
     \<Longrightarrow> hd chunk1 \<noteq> CHR ''-''
     \<Longrightarrow> classLoop chunk r match nrange
           = classLoop chunk1 r (match \<or> (lo \<le> r \<and> r \<le> lo)) (nrange + 1)"
  by (subst classLoop.simps) auto

lemma classLoop_shorter:
  "classLoop chunk r match nrange = Some (m, chunk') \<Longrightarrow> length chunk' < length chunk"
proof (induction "length chunk" arbitrary: chunk match nrange rule: less_induct)
  case less
  note res = \<open>classLoop chunk r match nrange = Some (m, chunk')\<close>
  show ?case
  proof (cases "chunk \<noteq> [] \<and> hd chunk = CHR '']'' \<and> nrange > 0")
    case True
    then have "classLoop chunk r match nrange = Some (match, tl chunk)"
      by (rule classLoop_close)
    then have "chunk' = tl chunk" using res by simp
    then show ?thesis using True by (cases chunk) simp_all
  next
    case False
    obtain lo chunk1 e1 where g1: "getEsc chunk = (lo, chunk1, e1)"
      by (cases "getEsc chunk") auto
    show ?thesis
    proof (cases e1)
      case (Some e)
      have "classLoop chunk r match nrange = None"
        using False g1 [unfolded Some] by (rule classLoop_bad1)
      then show ?thesis using res by simp
    next
      case None
      note g1' = g1 [unfolded None]
      have s1: "length chunk1 < length chunk" "chunk1 \<noteq> []"
        using getEsc_shorter [OF g1'] by simp_all
      show ?thesis
      proof (cases "hd chunk1 = CHR ''-''")
        case dash: True
        obtain hi chunk2 e2 where g2: "getEsc (tl chunk1) = (hi, chunk2, e2)"
          by (cases "getEsc (tl chunk1)") auto
        show ?thesis
        proof (cases e2)
          case (Some e)
          have "classLoop chunk r match nrange = None"
            using False g1' dash g2 [unfolded Some] by (rule classLoop_bad2)
          then show ?thesis using res by simp
        next
          case n2: None
          note g2' = g2 [unfolded n2]
          have s2: "length chunk2 < length (tl chunk1)"
            using getEsc_shorter [OF g2'] by simp
          then have lt: "length chunk2 < length chunk" using s1 by simp
          have "classLoop chunk r match nrange
              = classLoop chunk2 r (match \<or> (lo \<le> r \<and> r \<le> hi)) (nrange + 1)"
            using False g1' dash g2' by (rule classLoop_range)
          then have "classLoop chunk2 r (match \<or> (lo \<le> r \<and> r \<le> hi)) (nrange + 1) = Some (m, chunk')"
            using res by simp
          then have "length chunk' < length chunk2" by (rule less.hyps [OF lt])
          then show ?thesis using lt by simp
        qed
      next
        case nodash: False
        have "classLoop chunk r match nrange
            = classLoop chunk1 r (match \<or> (lo \<le> r \<and> r \<le> lo)) (nrange + 1)"
          using False g1' nodash by (rule classLoop_single)
        then have "classLoop chunk1 r (match \<or> (lo \<le> r \<and> r \<le> lo)) (nrange + 1) = Some (m, chunk')"
          using res by simp
        then have "length chunk' < length chunk1" by (rule less.hyps [OF s1(1)])
        then show ?thesis using s1 by simp
      qed
    qed
  qed
qed

function matchChunk :: "string \<Rightarrow> string \<Rightarrow> bool \<Rightarrow> string \<times> bool \<times> match_error option" where
  "matchChunk [] s failed = (if failed then ([], False, None) else (s, True, None))"
| "matchChunk (c # chunk) s failed0 =
     (let failed = (failed0 \<or> length s = 0) in
      if c = CHR ''['' then
        (let r = (if \<not> failed then fst (DecodeRuneInString s) else 0);
             s1 = (if \<not> failed then drop (snd (DecodeRuneInString s)) s else s);
             negated = (chunk \<noteq> [] \<and> hd chunk = CHR ''^'');
             chunk1 = (if negated then tl chunk else chunk)
         in case classLoop chunk1 r False 0 of
              None \<Rightarrow> ([], False, Some ErrBadPattern)
            | Some (match, chunk2) \<Rightarrow> matchChunk chunk2 s1 (failed \<or> match = negated))
      else if c = CHR ''?'' then
        (if \<not> failed then
           matchChunk chunk (drop (snd (DecodeRuneInString s)) s) (hd s = Separator)
         else matchChunk chunk s failed)
      else if c = CHR 0x5C then
        (case chunk of
           [] \<Rightarrow> ([], False, Some ErrBadPattern)
         | d # chunk' \<Rightarrow>
             (if \<not> failed then matchChunk chunk' (tl s) (d \<noteq> hd s)
              else matchChunk chunk' s failed))
      else
        (if \<not> failed then matchChunk chunk (tl s) (c \<noteq> hd s)
         else matchChunk chunk s failed))"
  by pat_completeness auto
termination
  apply (relation "measure (\<lambda>(chunk, s, failed). length chunk)")
  apply simp_all
  subgoal for c chunk s failed0 x xa xb xc xd x2 xaa y
    using classLoop_shorter [of "if chunk \<noteq> [] \<and> hd chunk = CHR ''^'' then tl chunk else chunk"
        "if \<not> failed0 \<and> s \<noteq> [] then fst (DecodeRuneInString s) else 0" False 0 xaa y]
    by (cases chunk) (auto split: if_splits)
  done

declare matchChunk.simps(2) [simp del]

text \<open>
  The loop of \<open>Match\<close> that, after a star, looks for the chunk at every later position
  of the name up to the next separator.
\<close>

fun starLoop :: "string \<Rightarrow> bool \<Rightarrow> string \<Rightarrow> string \<times> bool \<times> match_error option" where
  "starLoop chunk lastChunk [] = ([], False, None)"
| "starLoop chunk lastChunk (c # name') =
     (if c = Separator then ([], False, None)
      else
        (case matchChunk chunk name' False of
           (t, True, err) \<Rightarrow>
             if lastChunk \<and> length t > 0 then starLoop chunk lastChunk name'
             else (t, True, None)
         | (t, False, Some e) \<Rightarrow> ([], False, Some e)
         | (t, False, None) \<Rightarrow> starLoop chunk lastChunk name'))"

lemma scanLoop_pos: "c \<noteq> CHR ''*'' \<Longrightarrow> 0 < scanLoop inrange (c # cs)"
  by (cases cs) auto

lemma scanChunk_shorter:
  assumes "pattern \<noteq> []" "scanChunk pattern = (star, chunk, rest)"
  shows "length rest < length pattern"
proof -
  let ?p = "dropWhile (\<lambda>c. c = CHR ''*'') pattern"
  have rest: "rest = drop (scanLoop False ?p) ?p"
    using assms(2) by (simp add: scanChunk_def Let_def)
  show ?thesis
  proof (cases "hd pattern = CHR ''*''")
    case True
    then have "length ?p < length pattern"
      using assms(1) length_dropWhile_le [of "\<lambda>c. c = CHR ''*''" "tl pattern"]
      by (cases pattern) (auto simp add: le_imp_less_Suc)
    then show ?thesis using rest by simp
  next
    case False
    then obtain c cs where p: "pattern = c # cs" "c \<noteq> CHR ''*''"
      using assms(1) by (cases pattern) auto
    then have "?p = pattern" by simp
    moreover have "0 < scanLoop False pattern" using p scanLoop_pos by simp
    ultimately show ?thesis using rest assms(1) by simp
  qed
qed

function Match :: "string \<Rightarrow> string \<Rightarrow> bool \<times> match_error option" where
  "Match pattern name =
     (if length pattern = 0 then (length name = 0, None)
      else
        (case scanChunk pattern of
           (star, chunk, rest) \<Rightarrow>
             if star \<and> chunk = [] then (\<not> Contains name separator, None)
             else
               (case matchChunk chunk name False of
                  (t, ok, err) \<Rightarrow>
                    if ok \<and> (length t = 0 \<or> length rest > 0) then Match rest t
                    else if err \<noteq> None then (False, err)
                    else if star then
                      (case starLoop chunk (length rest = 0) name of
                         (t', True, err') \<Rightarrow> Match rest t'
                       | (t', False, err') \<Rightarrow> (False, err'))
                    else (False, None))))"
  by pat_completeness auto
termination
  apply (relation "measure (\<lambda>(pattern, name). length pattern)")
  apply simp_all
  subgoal for pattern name x y xa ya
    using scanChunk_shorter [of pattern x xa ya] by auto
  subgoal for pattern name x y xa ya
    using scanChunk_shorter [of pattern True xa ya] by auto
  done

declare Match.simps [simp del]

section \<open>Base names and extensions\<close>

text \<open>\<open>path.Base\<close> of package \<open>path\<close>, which always works on slashes.\<close>

definition Base :: "string \<Rightarrow> string" where
  "Base path =
     (if path = [] then ''.''
      else
        (let stripped = rev (dropWhile (\<lambda>c. c = CHR ''/'') (rev path));
             lastElem = rev (takeWhile (\<lambda>c. c \<noteq> CHR ''/'') (rev stripped))
         in if lastElem = [] then ''/'' else lastElem))"

text \<open>\<open>filepath.Ext\<close>: the suffix of the last element from its last dot on.\<close>

definition Ext :: "string \<Rightarrow> string" where
  "Ext path =
     (let lastElem = rev (takeWhile (\<lambda>c. c \<noteq> Separator) (rev path))
      in if CHR ''.'' \<in> set lastElem
         then CHR ''.'' # rev (takeWhile (\<lambda>c. c \<noteq> CHR ''.'') (rev lastElem))
         else [])"

section \<open>The cache validator\<close>

text \<open>
  \<open>strconv.FormatInt(i, base)\<close> for \<open>2 \<le> base \<le> 36\<close>: the general loop of
  \<open>formatBits\<close>, which writes the digits of the magnitude from the least significant one
  and then the sign.  An \<open>int64\<close> is modelled as an \<^typ>\<open>int\<close>, and so is the
  magnitude \<open>u\<close>, a \<open>uint64\<close>: the magnitude \<open>uint64(-i)\<close> of a negative \<open>i\<close> is
  \<open>- i\<close>, also for the least \<open>int64\<close>.
\<close>

definition digits :: string where
  "digits = ''0123456789abcdefghijklmnopqrstuvwxyz''"

function formatBits :: "int \<Rightarrow> int \<Rightarrow> string" where
  "formatBits u b =
     (if 2 \<le> b \<and> b \<le> u then formatBits (u div b) b @ [digits ! nat (u mod b)]
      else [digits ! nat u])"
  by pat_completeness auto
termination
proof (relation "measure (\<lambda>(u, b). nat u)", goal_cases)
  case 1
  show ?case by simp
next
  case (2 u b)
  then have "u div b < u" by (intro int_div_less_self) auto
  then show ?case using 2 by simp
qed

declare formatBits.simps [simp del]

definition FormatInt :: "int \<Rightarrow> int \<Rightarrow> string" where
  "FormatInt i base =
     (let neg = (i < 0);
          u = (if neg then - i else i)
      in (if neg then ''-'' else []) @ formatBits u base)"

text \<open>
  A \<open>time.Time\<close> as far as the server reads it: \<open>Unix()\<close> gives the whole seconds
  since the epoch and drops what lies below a second.
\<close>

record Time =
  unixSec :: int
  nanos :: nat

definition Unix :: "Time \<Rightarrow> int" where
  "Unix t = unixSec t"

text \<open>The methods of \<open>fs.FileInfo\<close> that the server calls.\<close>

record FileInfo =
  Name :: string
  Size :: int
  ModTime :: Time
  IsDir :: bool

definition calculateEtag :: "FileInfo \<Rightarrow> string" where
  "calculateEtag d =
     (let t = FormatInt (Unix (ModTime d)) 36;
          s = FormatInt (Size d) 36
      in ''\"'' @ t @ s @ ''\"'')"

section \<open>The file system and its errors\<close>

text \<open>
  The handler sees an error of the file system in three ways only: through \<open>errors.Is\<close>,
  through \<open>os.IsNotExist\<close> and \<open>os.IsPermission\<close>, and through its message, which
  becomes a tag of the request.  An error is therefore either a plain error, given by
  its kind and its message, or an error that wraps another one under a message of its
  own, as \<open>fmt.Errorf\<close> with \<open>%w\<close> builds it.  \<open>errors.Is\<close> follows the chain of wrapped
  errors, so it sees the kind of the innermost one; \<open>os.IsNotExist\<close> and
  \<open>os.IsPermission\<close> predate the wrapping of errors and do not follow the chain, so
  they answer no on every wrapped error.  A plain error stands for a sentinel error of
  package \<open>fs\<close>, for a system call error, or for one of these inside a \<open>*fs.PathError\<close>,
  which all three tests look through.  The three sentinel errors carry the messages of
  the standard library.
\<close>

datatype err_kind = NotExist | Permission | Invalid | Other

datatype fs_error = FsError err_kind string | Wrapped string fs_error

fun errKind :: "fs_error \<Rightarrow> err_kind" where
  "errKind (FsError kind msg) = kind"
| "errKind (Wrapped msg err) = errKind err"

fun Error :: "fs_error \<Rightarrow> string" where
  "Error (FsError kind msg) = msg"
| "Error (Wrapped msg err) = msg"

definition ErrNotExist :: fs_error where
  "ErrNotExist = FsError NotExist ''file does not exist''"

definition ErrPermission :: fs_error where
  "ErrPermission = FsError Permission ''permission denied''"

definition ErrInvalid :: fs_error where
  "ErrInvalid = FsError Invalid ''invalid argument''"

definition errorsIs :: "fs_error \<Rightarrow> fs_error \<Rightarrow> bool" where
  "errorsIs err target = (errKind err = errKind target)"

fun IsNotExist :: "fs_error \<Rightarrow> bool" where
  "IsNotExist (FsError kind msg) = (kind = NotExist)"
| "IsNotExist (Wrapped msg err) = False"

fun IsPermission :: "fs_error \<Rightarrow> bool" where
  "IsPermission (FsError kind msg) = (kind = Permission)"
| "IsPermission (Wrapped msg err) = False"

text \<open>
  A file system answers \<open>fs.Stat\<close> and \<open>Open\<close>; an opened file is represented by its
  content.  Every call that the handler makes on the file system is recorded, in order,
  as an event, so that properties about which calls happen, and when, can be stated.
\<close>

record FS =
  fsStat :: "string \<Rightarrow> fs_error + FileInfo"
  fsOpen :: "string \<Rightarrow> fs_error + string"

datatype fs_event =
    StatCall string
  | OpenCall string
  | CloseCall string
  | ServeContentCall string Time string

text \<open>
  The fields of the filter's specification that the handler reads.
\<close>

record Spec =
  fileSystem :: FS
  Root :: string
  Hide :: "string list"
  IndexNames :: "string list"

text \<open>
  What the handler takes from its surroundings: the operating system the program was
  built for, the working directory (\<open>None\<close> when \<open>os.Getwd\<close> fails), the replacer of
  package \<open>util\<close>, whose code is not among the sources and which is therefore a
  parameter, and the table of media types of package \<open>mime\<close>.
\<close>

record Env =
  GOOS :: string
  Getwd :: "string option"
  ReplaceAll :: "string \<Rightarrow> string \<Rightarrow> string"
  TypeByExtension :: "string \<Rightarrow> string"

record Request =
  Path :: string
  Method :: string

text \<open>
  The part of the request context that the handler writes: the tags, the status code and
  the header of the response, together with the record of the calls on the file system.
\<close>

record Context =
  tags :: "string list"
  statusCode :: "nat option"
  header :: "string \<Rightarrow> string list"
  fsLog :: "fs_event list"

definition AddTag :: "string \<Rightarrow> Context \<Rightarrow> Context" where
  "AddTag tag ctx = ctx\<lparr>tags := tags ctx @ [tag]\<rparr>"

definition SetStatusCode :: "nat \<Rightarrow> Context \<Rightarrow> Context" where
  "SetStatusCode code ctx = ctx\<lparr>statusCode := Some code\<rparr>"

definition headerAdd :: "string \<Rightarrow> string \<Rightarrow> Context \<Rightarrow> Context" where
  "headerAdd k v ctx = ctx\<lparr>header := (header ctx)(k := header ctx k @ [v])\<rparr>"

definition headerSet :: "string \<Rightarrow> string \<Rightarrow> Context \<Rightarrow> Context" where
  "headerSet k v ctx = ctx\<lparr>header := (header ctx)(k := [v])\<rparr>"

definition headerDel :: "string \<Rightarrow> Context \<Rightarrow> Context" where
  "headerDel k ctx = ctx\<lparr>header := (header ctx)(k := [])\<rparr>"

definition headerGet :: "string \<Rightarrow> Context \<Rightarrow> string" where
  "headerGet k ctx = (case header ctx k of [] \<Rightarrow> [] | v # _ \<Rightarrow> v)"

definition logEvent :: "fs_event \<Rightarrow> Context \<Rightarrow> Context" where
  "logEvent e ctx = ctx\<lparr>fsLog := fsLog ctx @ [e]\<rparr>"

definition resultIllegalADSPath :: string where "resultIllegalADSPath = ''illegalADSPath''"
definition resultIllegalShortName :: string where "resultIllegalShortName = ''illegalShortName''"
definition resultNotFound :: string where "resultNotFound = ''notFound''"
definition resultErrPermission :: string where "resultErrPermission = ''errPermission''"
definition resultErrHandleFile :: string where "resultErrHandleFile = ''errHandleFile''"
definition resultMethodNotAllowed :: string where "resultMethodNotAllowed = ''methodNotAllowed''"

definition StatusBadRequest :: nat where "StatusBadRequest = 400"
definition StatusForbidden :: nat where "StatusForbidden = 403"
definition StatusNotFound :: nat where "StatusNotFound = 404"
definition StatusMethodNotAllowed :: nat where "StatusMethodNotAllowed = 405"
definition StatusInternalServerError :: nat where "StatusInternalServerError = 500"

definition MethodGet :: string where "MethodGet = ''GET''"
definition MethodHead :: string where "MethodHead = ''HEAD''"

section \<open>Hidden paths\<close>

text \<open>
  The loop of \<open>fileHidden\<close> over the hide list; \<open>components\<close> is the lazily computed
  split of the file name, empty until an entry without separator is met.
\<close>

fun fileHiddenLoop :: "string \<Rightarrow> string list \<Rightarrow> string list \<Rightarrow> bool" where
  "fileHiddenLoop filename components [] = False"
| "fileHiddenLoop filename components (h # hide) =
     (if \<not> Contains h separator then
        (let components' = (if length components = 0 then Split filename Separator
                            else components)
         in if list_ex (\<lambda>c. fst (Match h c)) components' then True
            else if fst (Match h filename) then True
            else fileHiddenLoop filename components' hide)
      else if HasPrefix filename h \<and> HasPrefix (TrimPrefix filename h) separator then True
      else if fst (Match h filename) then True
      else fileHiddenLoop filename components hide)"

definition fileHidden :: "string option \<Rightarrow> string \<Rightarrow> string list \<Rightarrow> bool" where
  "fileHidden wd filename hide =
     (if length hide = 0 then False
      else
        (let filename' = (case Abs wd filename of Some filenameAbs \<Rightarrow> filenameAbs
                          | None \<Rightarrow> filename)
         in fileHiddenLoop filename' [] hide))"

definition transformHidePaths :: "Env \<Rightarrow> Spec \<Rightarrow> string list" where
  "transformHidePaths env spec =
     map (\<lambda>h0.
            (let h = ReplaceAll env h0 [] in
             if Contains h separator then
               (case Abs (Getwd env) h of Some absPath \<Rightarrow> absPath | None \<Rightarrow> h)
             else h))
         (Hide spec)"

section \<open>Errors of opening inside a non-directory\<close>

text \<open>
  The loop of \<open>mapDirOpenError\<close> over the parts of the name; \<open>seen\<close> holds the parts
  before the current one, so that \<open>seen @ [part]\<close> is the slice \<open>parts[:i+1]\<close>.
\<close>

fun mapDirOpenErrorLoop ::
  "FS \<Rightarrow> fs_error \<Rightarrow> string list \<Rightarrow> string list \<Rightarrow> fs_event list
     \<Rightarrow> fs_error \<times> fs_event list" where
  "mapDirOpenErrorLoop fs originalErr seen [] log = (originalErr, log)"
| "mapDirOpenErrorLoop fs originalErr seen (part # parts) log =
     (if part = [] then mapDirOpenErrorLoop fs originalErr (seen @ [part]) parts log
      else
        (let name = JoinStr (seen @ [part]) separator;
             log' = log @ [StatCall name]
         in case fsStat fs name of
              Inl err \<Rightarrow> (originalErr, log')
            | Inr fi \<Rightarrow>
                if \<not> IsDir fi then (ErrNotExist, log')
                else mapDirOpenErrorLoop fs originalErr (seen @ [part]) parts log'))"

definition mapDirOpenError ::
  "FS \<Rightarrow> fs_error \<Rightarrow> string \<Rightarrow> fs_event list \<Rightarrow> fs_error \<times> fs_event list" where
  "mapDirOpenError fs originalErr name log =
     (if errorsIs originalErr ErrNotExist \<or> errorsIs originalErr ErrPermission
      then (originalErr, log)
      else mapDirOpenErrorLoop fs originalErr [] (Split name Separator) log)"

section \<open>The request handler\<close>

text \<open>
  The checks at the head of \<open>handle\<close>, made when the program runs on Windows: the tag
  and the result of the rejection, or \<open>None\<close> when the request passes.
\<close>

definition requestGuard :: "string \<Rightarrow> string \<Rightarrow> (string \<times> string) option" where
  "requestGuard goos p =
     (if goos = ''windows'' then
        (if Contains p '':'' then Some (''illegal ADS path'', resultIllegalADSPath)
         else
           (let trimmedPath = TrimRight p ''. '' in
            if length (Base trimmedPath) \<le> 12 \<and> Contains trimmedPath ''~''
            then Some (''illegal short name'', resultIllegalShortName)
            else None))
      else None)"

text \<open>
  The loop of \<open>handle\<close> over the index names: the first name that is not hidden and
  whose stat succeeds is chosen.
\<close>

fun indexLoop ::
  "Env \<Rightarrow> Spec \<Rightarrow> string list \<Rightarrow> string \<Rightarrow> string list \<Rightarrow> Context
     \<Rightarrow> (FileInfo \<times> string) option \<times> Context" where
  "indexLoop env spec filesToHide filename [] ctx = (None, ctx)"
| "indexLoop env spec filesToHide filename (indexPage0 # rest) ctx =
     (let indexPage = ReplaceAll env indexPage0 [];
          indexPath = SanitizedPathJoin filename indexPage
      in if fileHidden (Getwd env) indexPath filesToHide then
           indexLoop env spec filesToHide filename rest ctx
         else
           (let ctx' = logEvent (StatCall indexPath) ctx in
            case fsStat (fileSystem spec) indexPath of
              Inl err \<Rightarrow> indexLoop env spec filesToHide filename rest ctx'
            | Inr indexInfo \<Rightarrow> (Some (indexInfo, indexPath), ctx')))"

definition openFile :: "Spec \<Rightarrow> string \<Rightarrow> fs_error + string" where
  "openFile spec filename =
     (case fsOpen (fileSystem spec) filename of
        Inl err \<Rightarrow> Inl err
      | Inr file \<Rightarrow> Inr file)"

text \<open>
  What \<open>handle\<close> does from the opening of the file on: the errors of the opening, the
  check of the method, the headers, and the call of \<open>http.ServeContent\<close>.  The deferred
  \<open>Close\<close> is the last event of every path on which the file was opened.
\<close>

definition serveFile ::
  "Env \<Rightarrow> Spec \<Rightarrow> Request \<Rightarrow> FileInfo \<Rightarrow> string \<Rightarrow> Context \<Rightarrow> string \<times> Context" where
  "serveFile env spec r info filename ctx0 =
     (let ctx1 = logEvent (OpenCall filename) ctx0 in
      case openFile spec filename of
        Inl err0 \<Rightarrow>
          (let mapped = mapDirOpenError (fileSystem spec) err0 filename (fsLog ctx1);
               err = fst mapped;
               ctx2 = ctx1\<lparr>fsLog := snd mapped\<rparr>
           in if IsNotExist err then
                (resultNotFound, SetStatusCode StatusNotFound (AddTag ''not found'' ctx2))
              else if IsPermission err then
                (resultErrPermission,
                 SetStatusCode StatusForbidden (AddTag ''permission denied'' ctx2))
              else
                (resultErrHandleFile,
                 SetStatusCode StatusInternalServerError (AddTag (Error err) ctx2)))
      | Inr file \<Rightarrow>
          (let etag = calculateEtag info;
               method = Method r
           in if method \<noteq> MethodGet \<and> method \<noteq> MethodHead then
                (resultMethodNotAllowed,
                 logEvent (CloseCall filename)
                   (SetStatusCode StatusMethodNotAllowed (headerAdd ''Allow'' ''GET, HEAD'' ctx1)))
              else
                (let ctx2 = headerSet ''Etag'' etag ctx1;
                     ctx3 = (if headerGet ''Content-Type'' ctx2 = [] then
                               (let mtyp = TypeByExtension env (Ext filename) in
                                if mtyp = [] then headerDel ''Content-Type'' ctx2
                                else headerSet ''Content-Type'' mtyp ctx2)
                             else ctx2);
                     ctx4 = logEvent (ServeContentCall (Name info) (ModTime info) file) ctx3
                 in ([], logEvent (CloseCall filename) ctx4))))"

text \<open>
  What \<open>handle\<close> does between the guard and the opening of the file: the stat of the
  sanitized path, with its errors classified, the search for an index file when the path
  is a directory, and the last check of the hide list.  The result is the outcome that
  \<open>handle\<close> returns at once, or the file to serve.
\<close>

definition resolveFile ::
  "Env \<Rightarrow> Spec \<Rightarrow> string \<Rightarrow> Context \<Rightarrow> (string \<times> Context) + (FileInfo \<times> string \<times> Context)" where
  "resolveFile env spec p ctx =
     (let filesToHide = transformHidePaths env spec;
          root = ReplaceAll env (Root spec) ''.'';
          filename = SanitizedPathJoin root p;
          ctx1 = logEvent (StatCall filename) ctx
      in case fsStat (fileSystem spec) filename of
           Inl err0 \<Rightarrow>
             (let mapped = mapDirOpenError (fileSystem spec) err0 filename (fsLog ctx1);
                  err = fst mapped;
                  ctx2 = ctx1\<lparr>fsLog := snd mapped\<rparr>
              in if errorsIs err ErrNotExist \<or> errorsIs err ErrInvalid then
                   Inl (resultNotFound, SetStatusCode StatusNotFound (AddTag ''not found'' ctx2))
                 else if errorsIs err ErrPermission then
                   Inl (resultErrPermission,
                        SetStatusCode StatusForbidden (AddTag (Error err) ctx2))
                 else
                   Inl (resultErrHandleFile,
                        SetStatusCode StatusInternalServerError (AddTag (Error err) ctx2)))
         | Inr info0 \<Rightarrow>
             (let found = (if IsDir info0 \<and> length (IndexNames spec) > 0
                           then indexLoop env spec filesToHide filename (IndexNames spec) ctx1
                           else (None, ctx1));
                  ctx2 = snd found;
                  info = (case fst found of Some (indexInfo, indexPath) \<Rightarrow> indexInfo
                          | None \<Rightarrow> info0);
                  filename' = (case fst found of Some (indexInfo, indexPath) \<Rightarrow> indexPath
                               | None \<Rightarrow> filename)
              in if IsDir info then
                   Inl (resultNotFound, SetStatusCode StatusNotFound (AddTag ''not found'' ctx2))
                 else if fileHidden (Getwd env) filename' filesToHide then
                   Inl (resultNotFound, SetStatusCode StatusNotFound (AddTag ''not found'' ctx2))
                 else Inr (info, filename', ctx2)))"

definition handle :: "Env \<Rightarrow> Spec \<Rightarrow> Request \<Rightarrow> Context \<Rightarrow> string \<times> Context" where
  "handle env spec r ctx =
     (case requestGuard (GOOS env) (Path r) of
        Some (tag, res) \<Rightarrow> (res, SetStatusCode StatusBadRequest (AddTag tag ctx))
      | None \<Rightarrow>
          (case resolveFile env spec (Path r) ctx of
             Inl out \<Rightarrow> out
           | Inr (info, filename, ctx') \<Rightarrow> serveFile env spec r info filename ctx'))"

section \<open>Vocabulary of the properties\<close>

text \<open>
  The elements of a path are its maximal runs of bytes other than the separator.
  \<open>cleanStep\<close> is what one element does to the stack of elements kept so far,
  \<open>render\<close> writes a stack as a path, \<open>elems\<close> is the stack that a whole path leaves,
  and \<open>wfStack\<close> says that a stack holds \<open>..\<close> elements (none when the path is rooted)
  followed by ordinary elements.
\<close>

definition okElem :: "string \<Rightarrow> bool" where
  "okElem e = (e \<noteq> [] \<and> Separator \<notin> set e \<and> e \<noteq> ''.'' \<and> e \<noteq> ''..'')"

definition cleanStep :: "bool \<Rightarrow> string list \<Rightarrow> string \<Rightarrow> string list" where
  "cleanStep rooted stk e =
     (if e = [] \<or> e = ''.'' then stk
      else if e = ''..'' then
        (if stk = [] then (if rooted then [] else [''..''])
         else if last stk = ''..'' then stk @ [''..'']
         else butlast stk)
      else stk @ [e])"

definition render :: "bool \<Rightarrow> string list \<Rightarrow> string" where
  "render rooted stk = (if rooted then [Separator] else []) @ JoinStr stk separator"

abbreviation dds :: "nat \<Rightarrow> string list" where
  "dds k \<equiv> replicate k ''..''"

definition orDot :: "string \<Rightarrow> string" where
  "orDot s = (if s = [] then ''.'' else s)"

definition elems :: "string \<Rightarrow> string list" where
  "elems path = foldl (cleanStep (HasPrefix path ''/'')) [] (Split path Separator)"

definition wfStack :: "bool \<Rightarrow> string list \<Rightarrow> bool" where
  "wfStack rooted stk =
     (\<exists>k ns. stk = dds k @ ns \<and> (\<forall>e\<in>set ns. okElem e) \<and> (rooted \<longrightarrow> k = 0))"

definition normRoot :: "string \<Rightarrow> string" where
  "normRoot root = (if root = [] then ''.'' else root)"

text \<open>
  A path lies lexically within a root when, both cleaned, it is the root or it starts with
  the root and a separator and what follows does not start with a \<open>..\<close> element; under the
  root \<open>/\<close> every rooted path does, and under the root \<open>.\<close> every relative path whose first
  element is not \<open>..\<close>.
\<close>

definition within :: "string \<Rightarrow> string \<Rightarrow> bool" where
  "within root p =
     (let r = Clean root; c = Clean p;
          base = (if r = ''/'' then ''/'' else if r = ''.'' then [] else r @ ''/'');
          rest = drop (length base) c
      in c = r \<or> (HasPrefix c base \<and> \<not> HasPrefix rest ''/'' \<and> rest \<noteq> ''..''
                   \<and> \<not> HasPrefix rest ''../''))"

section \<open>Vocabulary of the hidden-path properties\<close>

text \<open>
  \<open>absOr\<close> is the file name that \<open>fileHidden\<close> compares: the absolute path when
  \<open>filepath.Abs\<close> succeeds, the name as given otherwise.  \<open>hiddenBy\<close> is what one pattern
  of the hide list decides about such a name, and a \<open>literal\<close> pattern is one with none of
  the bytes that \<open>Match\<close> reads as an operator.
\<close>

definition absOr :: "string option \<Rightarrow> string \<Rightarrow> string" where
  "absOr wd filename = (case Abs wd filename of Some filenameAbs \<Rightarrow> filenameAbs | None \<Rightarrow> filename)"

definition hiddenBy :: "string \<Rightarrow> string \<Rightarrow> bool" where
  "hiddenBy filename h =
     (if \<not> Contains h separator
      then list_ex (\<lambda>c. fst (Match h c)) (Split filename Separator) \<or> fst (Match h filename)
      else (HasPrefix filename h \<and> HasPrefix (drop (length h) filename) separator)
           \<or> fst (Match h filename))"

definition literal :: "string \<Rightarrow> bool" where
  "literal h = (\<forall>c\<in>set h. c \<notin> set [CHR ''*'', CHR ''?'', CHR ''['', CHR 0x5C])"

section \<open>A small site\<close>

definition dirInfo :: "string \<Rightarrow> FileInfo" where
  "dirInfo n = \<lparr>Name = n, Size = 4096, ModTime = \<lparr>unixSec = 1700000000, nanos = 0\<rparr>, IsDir = True\<rparr>"

definition fileInfo :: "string \<Rightarrow> int \<Rightarrow> FileInfo" where
  "fileInfo n sz = \<lparr>Name = n, Size = sz, ModTime = \<lparr>unixSec = 1700000000, nanos = 0\<rparr>, IsDir = False\<rparr>"

definition siteStat :: "string \<Rightarrow> fs_error + FileInfo" where
  "siteStat name =
     (if name = ''/site'' then Inr (dirInfo ''site'')
      else if name = ''/site/'' then Inr (dirInfo ''site'')
      else if name = ''/site/index.html'' then Inr (fileInfo ''index.html'' 120)
      else if name = ''/site/index.txt'' then Inr (fileInfo ''index.txt'' 9)
      else if name = ''/site/docs'' then Inr (dirInfo ''docs'')
      else if name = ''/site/docs/'' then Inr (dirInfo ''docs'')
      else if name = ''/site/docs/index.txt'' then Inr (fileInfo ''index.txt'' 7)
      else if name = ''/site/file.txt'' then Inr (fileInfo ''file.txt'' 5)
      else if name = ''/site/file.txt/sub'' then Inl (FsError Other ''not a directory'')
      else Inl (FsError NotExist ''no such file or directory''))"

definition siteOpen :: "string \<Rightarrow> fs_error + string" where
  "siteOpen name =
     (if name = ''/site/index.html'' then Inr ''<html>''
      else if name = ''/site/index.txt'' then Inr ''site text''
      else if name = ''/site/docs/index.txt'' then Inr ''docs''
      else if name = ''/site/file.txt'' then Inr ''hello''
      else Inl (FsError NotExist ''no such file or directory''))"

definition siteFS :: FS where
  "siteFS = \<lparr>fsStat = siteStat, fsOpen = siteOpen\<rparr>"

definition siteSpec :: "string list \<Rightarrow> Spec" where
  "siteSpec hide = \<lparr>fileSystem = siteFS, Root = ''/site'', Hide = hide,
      IndexNames = [''index.html'', ''index.txt'']\<rparr>"

definition siteEnv :: "string \<Rightarrow> Env" where
  "siteEnv goos = \<lparr>GOOS = goos, Getwd = Some ''/srv/app'',
      ReplaceAll = (\<lambda>input empty. input),
      TypeByExtension = (\<lambda>ext. if ext = ''.html'' then ''text/html; charset=utf-8'' else [])\<rparr>"

definition emptyContext :: Context where
  "emptyContext = \<lparr>tags = [], statusCode = None, header = (\<lambda>k. []), fsLog = []\<rparr>"

definition outcome :: "string \<times> Context \<Rightarrow> string \<times> nat option \<times> fs_event list" where
  "outcome x = (fst x, statusCode (snd x), fsLog (snd x))"

section \<open>Vocabulary of the handler properties\<close>

text \<open>
  For the walk of \<open>mapDirOpenError\<close>: \<open>prefixAt parts i\<close> is the path that the walk
  stats at index \<open>i\<close>, and \<open>walkFindsFile\<close> says that some prefix with a non-empty last
  part exists and is not a directory while every earlier such prefix is a directory.  For
  the index search: \<open>indexPathOf\<close> is the path of a candidate, and a candidate is usable
  when it is not hidden and its stat succeeds.
\<close>

definition prefixAt :: "string list \<Rightarrow> nat \<Rightarrow> string" where
  "prefixAt parts i = JoinStr (take (Suc i) parts) separator"

definition statIsDir :: "FS \<Rightarrow> string \<Rightarrow> bool" where
  "statIsDir fs name = (case fsStat fs name of Inr fi \<Rightarrow> IsDir fi | Inl e \<Rightarrow> False)"

definition statIsFile :: "FS \<Rightarrow> string \<Rightarrow> bool" where
  "statIsFile fs name = (case fsStat fs name of Inr fi \<Rightarrow> \<not> IsDir fi | Inl e \<Rightarrow> False)"

definition walkFindsFile :: "FS \<Rightarrow> string list \<Rightarrow> bool" where
  "walkFindsFile fs parts =
     list_ex (\<lambda>i. parts ! i \<noteq> [] \<and> statIsFile fs (prefixAt parts i)
                 \<and> list_all (\<lambda>j. parts ! j = [] \<or> statIsDir fs (prefixAt parts j)) [0..<i])
       [0..<length parts]"

definition indexPathOf :: "Env \<Rightarrow> string \<Rightarrow> string \<Rightarrow> string" where
  "indexPathOf env filename indexPage = SanitizedPathJoin filename (ReplaceAll env indexPage [])"

definition usableIndex :: "Env \<Rightarrow> Spec \<Rightarrow> string \<Rightarrow> string \<Rightarrow> bool" where
  "usableIndex env spec filename indexPage =
     (\<not> fileHidden (Getwd env) (indexPathOf env filename indexPage) (transformHidePaths env spec)
      \<and> (case fsStat (fileSystem spec) (indexPathOf env filename indexPage) of
            Inr fi \<Rightarrow> True | Inl e \<Rightarrow> False))"

section \<open>Properties of the cache validator\<close>

lemma distinct_digits: "distinct digits"
  by (simp add: digits_def)

lemma length_digits: "length digits = 36"
  by (simp add: digits_def)

lemma digit_inj: "i < 36 \<Longrightarrow> j < 36 \<Longrightarrow> digits ! i = digits ! j \<Longrightarrow> i = j"
  using distinct_digits length_digits by (simp add: nth_eq_iff_index_eq)

lemma formatBits_ne: "formatBits u b \<noteq> []"
  by (subst formatBits.simps) simp

lemma formatBits_step:
  "2 \<le> b \<Longrightarrow> b \<le> u \<Longrightarrow> formatBits u b = formatBits (u div b) b @ [digits ! nat (u mod b)]"
  by (subst formatBits.simps) simp

lemma formatBits_last:
  "\<not> (2 \<le> b \<and> b \<le> u) \<Longrightarrow> formatBits u b = [digits ! nat u]"
  by (subst formatBits.simps) (simp only: if_False)

lemma formatBits_inj:
  "2 \<le> b \<Longrightarrow> b \<le> 36 \<Longrightarrow> 0 \<le> u \<Longrightarrow> 0 \<le> v \<Longrightarrow> formatBits u b = formatBits v b \<Longrightarrow> u = v"
proof (induction u b arbitrary: v rule: formatBits.induct)
  case (1 u b)
  note eq = \<open>formatBits u b = formatBits v b\<close>
  have b2: "2 \<le> b" and b36: "b \<le> 36" and u0: "0 \<le> u" and v0: "0 \<le> v" by fact+
  have modlt: "0 \<le> w mod b \<and> w mod b < 36" for w
    using b2 b36 pos_mod_bound [of b w] pos_mod_sign [of b w] by linarith
  show ?case
  proof (cases "b \<le> u")
    case True
    have fu: "formatBits u b = formatBits (u div b) b @ [digits ! nat (u mod b)]"
      using b2 True by (rule formatBits_step)
    show ?thesis
    proof (cases "b \<le> v")
      case bv: True
      have fv: "formatBits v b = formatBits (v div b) b @ [digits ! nat (v mod b)]"
        using b2 bv by (rule formatBits_step)
      have "formatBits (u div b) b @ [digits ! nat (u mod b)]
            = formatBits (v div b) b @ [digits ! nat (v mod b)]"
        using eq unfolding fu fv .
      then have e1: "formatBits (u div b) b = formatBits (v div b) b"
        and e2: "digits ! nat (u mod b) = digits ! nat (v mod b)" by simp_all
      have "0 \<le> u div b" "0 \<le> v div b"
        using u0 v0 b2 by (simp_all add: pos_imp_zdiv_nonneg_iff)
      then have d: "u div b = v div b"
        using "1.IH" [of "v div b"] True b2 b36 e1 by simp
      have "nat (u mod b) < 36" "nat (v mod b) < 36"
        using modlt [of u] modlt [of v] by linarith+
      then have "nat (u mod b) = nat (v mod b)" using e2 by (rule digit_inj)
      then have m: "u mod b = v mod b" using modlt [of u] modlt [of v] by linarith
      show ?thesis using d m by (metis div_mult_mod_eq)
    next
      case False
      then have "formatBits v b = [digits ! nat v]" by (simp add: formatBits_last)
      then have "formatBits (u div b) b @ [digits ! nat (u mod b)] = [digits ! nat v]"
        using eq unfolding fu by simp
      then have "formatBits (u div b) b = []" by simp
      then show ?thesis using formatBits_ne by blast
    qed
  next
    case False
    then have fu: "formatBits u b = [digits ! nat u]" by (simp add: formatBits_last)
    show ?thesis
    proof (cases "b \<le> v")
      case True
      have "formatBits v b = formatBits (v div b) b @ [digits ! nat (v mod b)]"
        using b2 True by (rule formatBits_step)
      then have "formatBits (v div b) b @ [digits ! nat (v mod b)] = [digits ! nat u]"
        using eq unfolding fu by simp
      then have "formatBits (v div b) b = []" by simp
      then show ?thesis using formatBits_ne by blast
    next
      case bv: False
      then have "formatBits v b = [digits ! nat v]" by (simp add: formatBits_last)
      then have "digits ! nat u = digits ! nat v" using eq unfolding fu by simp
      moreover have "nat u < 36" "nat v < 36" using False bv b36 by linarith+
      ultimately have "nat u = nat v" using digit_inj by blast
      then show ?thesis using u0 v0 by linarith
    qed
  qed
qed

lemma formatBits_hd:
  "2 \<le> b \<Longrightarrow> b \<le> 36 \<Longrightarrow> 0 \<le> u \<Longrightarrow> hd (formatBits u b) \<in> set digits"
proof (induction u b rule: formatBits.induct)
  case (1 u b)
  show ?case
  proof (cases "b \<le> u")
    case True
    then have "formatBits u b = formatBits (u div b) b @ [digits ! nat (u mod b)]"
      using "1.prems" by (simp add: formatBits_step)
    then have "hd (formatBits u b) = hd (formatBits (u div b) b)"
      using formatBits_ne by simp
    moreover have "0 \<le> u div b" using "1.prems" by (simp add: pos_imp_zdiv_nonneg_iff)
    ultimately show ?thesis using "1.IH" True "1.prems" by simp
  next
    case False
    then have "formatBits u b = [digits ! nat u]" by (simp add: formatBits_last)
    moreover have "nat u < length digits" using False "1.prems" by (simp add: length_digits)
    ultimately show ?thesis using nth_mem by fastforce
  qed
qed

lemma FormatInt_inj:
  assumes "2 \<le> b" "b \<le> 36" "FormatInt i b = FormatInt j b"
  shows "i = j"
proof -
  have minus: "CHR ''-'' \<notin> set digits" by (simp add: digits_def)
  have nohd: "0 \<le> u \<Longrightarrow> hd (formatBits u b) \<noteq> CHR ''-''" for u
    using formatBits_hd [OF assms(1,2), of u] minus by metis
  show ?thesis
  proof (cases "i < 0")
    case True
    show ?thesis
    proof (cases "j < 0")
      case jn: True
      from assms(3) True jn have "formatBits (- i) b = formatBits (- j) b"
        by (simp add: FormatInt_def)
      then have "- i = - j" using assms(1,2) True jn formatBits_inj [of b "- i" "- j"] by simp
      then show ?thesis by simp
    next
      case False
      from assms(3) True False have "CHR ''-'' # formatBits (- i) b = formatBits j b"
        by (simp add: FormatInt_def)
      then have "hd (formatBits j b) = CHR ''-''" by (metis list.sel(1))
      then show ?thesis using nohd [of j] False by simp
    qed
  next
    case False
    show ?thesis
    proof (cases "j < 0")
      case True
      from assms(3) True False have "formatBits i b = CHR ''-'' # formatBits (- j) b"
        by (simp add: FormatInt_def)
      then have "hd (formatBits i b) = CHR ''-''" by (metis list.sel(1))
      then show ?thesis using nohd [of i] False by simp
    next
      case jn: False
      from assms(3) False jn have "formatBits i b = formatBits j b"
        by (simp add: FormatInt_def)
      then show ?thesis using assms(1,2) False jn formatBits_inj [of b i j] by simp
    qed
  qed
qed

text \<open>
  Claim C4, as amended.  The validator is a function of the modification time in Unix
  seconds and of the size alone: it is the quoted concatenation of their base-36
  encodings, so two file infos that agree on both have the same validator whatever their
  names, directory flags or sub-second times are.  When one of the two values changes
  and the other one is kept, the validator changes.
\<close>

theorem calculateEtag_modtime_size:
  "calculateEtag d = ''\"'' @ FormatInt (Unix (ModTime d)) 36 @ FormatInt (Size d) 36 @ ''\"''
   \<and> (Unix (ModTime d) = Unix (ModTime d') \<and> Size d = Size d'
        \<longrightarrow> calculateEtag d = calculateEtag d')
   \<and> (Size d = Size d' \<and> Unix (ModTime d) \<noteq> Unix (ModTime d')
        \<longrightarrow> calculateEtag d \<noteq> calculateEtag d')
   \<and> (Unix (ModTime d) = Unix (ModTime d') \<and> Size d \<noteq> Size d'
        \<longrightarrow> calculateEtag d \<noteq> calculateEtag d')"
proof -
  have inj: "FormatInt i 36 = FormatInt j 36 \<Longrightarrow> i = j" for i j
    by (rule FormatInt_inj [of 36]) simp_all
  have a: "calculateEtag d
      = ''\"'' @ FormatInt (Unix (ModTime d)) 36 @ FormatInt (Size d) 36 @ ''\"''"
    by (simp add: calculateEtag_def)
  have b: "Unix (ModTime d) = Unix (ModTime d') \<and> Size d = Size d'
      \<longrightarrow> calculateEtag d = calculateEtag d'"
    by (simp add: calculateEtag_def)
  have c: "Size d = Size d' \<and> Unix (ModTime d) \<noteq> Unix (ModTime d')
      \<longrightarrow> calculateEtag d \<noteq> calculateEtag d'"
    using inj by (auto simp add: calculateEtag_def)
  have e: "Unix (ModTime d) = Unix (ModTime d') \<and> Size d \<noteq> Size d'
      \<longrightarrow> calculateEtag d \<noteq> calculateEtag d'"
    using inj by (auto simp add: calculateEtag_def)
  from a b c e show ?thesis by blast
qed

theorem calculateEtag_modtime_size_witness:
  "calculateEtag \<lparr>Name = ''a.txt'', Size = 1234,
       ModTime = \<lparr>unixSec = 1700000000, nanos = 5\<rparr>, IsDir = False\<rparr> = ''\"s44we8ya\"''
   \<and> calculateEtag \<lparr>Name = ''a.txt'', Size = 1234,
       ModTime = \<lparr>unixSec = 1700000000, nanos = 5\<rparr>, IsDir = False\<rparr>
     = calculateEtag \<lparr>Name = ''b.bin'', Size = 1234,
       ModTime = \<lparr>unixSec = 1700000000, nanos = 77\<rparr>, IsDir = True\<rparr>
   \<and> calculateEtag \<lparr>Name = ''a.txt'', Size = 1234,
       ModTime = \<lparr>unixSec = 1700000000, nanos = 5\<rparr>, IsDir = False\<rparr>
     \<noteq> calculateEtag \<lparr>Name = ''a.txt'', Size = 1235,
       ModTime = \<lparr>unixSec = 1700000000, nanos = 5\<rparr>, IsDir = False\<rparr>
   \<and> calculateEtag \<lparr>Name = ''a.txt'', Size = 1234,
       ModTime = \<lparr>unixSec = 1700000000, nanos = 5\<rparr>, IsDir = False\<rparr>
     \<noteq> calculateEtag \<lparr>Name = ''a.txt'', Size = 1234,
       ModTime = \<lparr>unixSec = 1700000001, nanos = 5\<rparr>, IsDir = False\<rparr>"
proof -
  let ?d = "\<lparr>Name = ''a.txt'', Size = 1234,
       ModTime = \<lparr>unixSec = 1700000000, nanos = 5\<rparr>, IsDir = False\<rparr>"
  have v: "calculateEtag ?d = ''\"s44we8ya\"''"
    by code_simp
  have s: "calculateEtag ?d = calculateEtag \<lparr>Name = ''b.bin'', Size = 1234,
       ModTime = \<lparr>unixSec = 1700000000, nanos = 77\<rparr>, IsDir = True\<rparr>"
    using calculateEtag_modtime_size [of ?d "\<lparr>Name = ''b.bin'', Size = 1234,
       ModTime = \<lparr>unixSec = 1700000000, nanos = 77\<rparr>, IsDir = True\<rparr>",
       THEN conjunct2, THEN conjunct1]
    by (simp add: Unix_def)
  have n1: "calculateEtag ?d \<noteq> calculateEtag \<lparr>Name = ''a.txt'', Size = 1235,
       ModTime = \<lparr>unixSec = 1700000000, nanos = 5\<rparr>, IsDir = False\<rparr>"
    using calculateEtag_modtime_size [of ?d "\<lparr>Name = ''a.txt'', Size = 1235,
       ModTime = \<lparr>unixSec = 1700000000, nanos = 5\<rparr>, IsDir = False\<rparr>",
       THEN conjunct2, THEN conjunct2, THEN conjunct2]
    by (simp add: Unix_def)
  have n2: "calculateEtag ?d \<noteq> calculateEtag \<lparr>Name = ''a.txt'', Size = 1234,
       ModTime = \<lparr>unixSec = 1700000001, nanos = 5\<rparr>, IsDir = False\<rparr>"
    using calculateEtag_modtime_size [of ?d "\<lparr>Name = ''a.txt'', Size = 1234,
       ModTime = \<lparr>unixSec = 1700000001, nanos = 5\<rparr>, IsDir = False\<rparr>",
       THEN conjunct2, THEN conjunct2, THEN conjunct1]
    by (simp add: Unix_def)
  from v s n1 n2 show ?thesis by blast
qed

text \<open>
  The two numbers are written one after the other with nothing between them, so the
  validator does not determine the pair: when the modification time and the size change
  together, the validator may stay the same.  A file of 36 bytes last modified at second
  1 and a file of 0 bytes last modified at second 37 both have the validator \<open>"110"\<close>.
\<close>

theorem calculateEtag_both_changed:
  "Unix (ModTime \<lparr>Name = ''a'', Size = 36, ModTime = \<lparr>unixSec = 1, nanos = 0\<rparr>, IsDir = False\<rparr>)
     \<noteq> Unix (ModTime \<lparr>Name = ''a'', Size = 0, ModTime = \<lparr>unixSec = 37, nanos = 0\<rparr>, IsDir = False\<rparr>)
   \<and> Size \<lparr>Name = ''a'', Size = 36, ModTime = \<lparr>unixSec = 1, nanos = 0\<rparr>, IsDir = False\<rparr>
     \<noteq> Size \<lparr>Name = ''a'', Size = 0, ModTime = \<lparr>unixSec = 37, nanos = 0\<rparr>, IsDir = False\<rparr>
   \<and> calculateEtag \<lparr>Name = ''a'', Size = 36, ModTime = \<lparr>unixSec = 1, nanos = 0\<rparr>, IsDir = False\<rparr>
     = ''\"110\"''
   \<and> calculateEtag \<lparr>Name = ''a'', Size = 0, ModTime = \<lparr>unixSec = 37, nanos = 0\<rparr>, IsDir = False\<rparr>
     = ''\"110\"''"
  by code_simp

section \<open>Cleaning, element by element\<close>

text \<open>
  The byte loop of \<open>Clean\<close> computes a fold over the elements of the path: the buffer is
  the rendering of a stack of elements, and \<open>dotdot\<close> is the length of the rendering of
  the \<open>..\<close> elements at the bottom of the stack.
\<close>

lemma Split_ne [simp]: "Split s sep \<noteq> []"
  by (induction s) auto

lemma Split_takeWhile:
  "Split s sep = takeWhile (\<lambda>x. x \<noteq> sep) s
       # (case dropWhile (\<lambda>x. x \<noteq> sep) s of [] \<Rightarrow> [] | _ # r \<Rightarrow> Split r sep)"
  by (induction s) (auto split: list.splits)

lemma Split_append_sep: "Split (a @ sep # b) sep = Split a sep @ Split b sep"
  by (induction a) (auto simp: neq_Nil_conv)

lemma JoinStr_snoc:
  "JoinStr (xs @ [e]) sep = (if xs = [] then e else JoinStr xs sep @ sep @ e)"
  by (induction xs sep rule: JoinStr.induct) auto

lemma JoinStr_append:
  "xs \<noteq> [] \<Longrightarrow> ys \<noteq> [] \<Longrightarrow> JoinStr (xs @ ys) sep = JoinStr xs sep @ sep @ JoinStr ys sep"
  by (induction xs sep rule: JoinStr.induct) (auto simp: neq_Nil_conv)

lemma JoinStr_Cons:
  "JoinStr (e # es) sep = (if es = [] then e else e @ sep @ JoinStr es sep)"
  by (cases es) auto

lemma JoinStr_eq_Nil:
  "\<forall>e\<in>set xs. e \<noteq> [] \<Longrightarrow> JoinStr xs sep = [] \<longleftrightarrow> xs = []"
  by (induction xs sep rule: JoinStr.induct) auto

lemma render_snoc:
  "render rooted (stk @ [e])
     = (if stk = [] then render rooted [] else render rooted stk @ separator) @ e"
  by (simp add: render_def JoinStr_snoc)

lemma render_empty_iff:
  assumes "\<forall>e\<in>set stk. e \<noteq> []"
  shows "length (render True stk) = 1 \<longleftrightarrow> stk = []"
    and "length (render False stk) = 0 \<longleftrightarrow> stk = []"
  using assms by (auto simp add: render_def JoinStr_eq_Nil)

lemma dotdotLoop_stop:
  "Separator \<notin> set n \<Longrightarrow> j < length n
     \<Longrightarrow> dotdotLoop (P @ n) (length P) (length P + j) = length P"
proof (induction j)
  case 0
  then show ?case by (subst dotdotLoop.simps) simp
next
  case (Suc j)
  then have "(P @ n) ! (length P + Suc j) \<noteq> Separator"
    by (metis nth_append_length_plus nth_mem)
  then have "dotdotLoop (P @ n) (length P) (length P + Suc j)
      = dotdotLoop (P @ n) (length P) (length P + j)"
    by (subst dotdotLoop.simps) simp
  then show ?case using Suc by simp
qed

lemma dotdotLoop_sep:
  "Separator \<notin> set n \<Longrightarrow> j \<le> length n \<Longrightarrow> dd \<le> length P
     \<Longrightarrow> dotdotLoop (P @ Separator # n) dd (length P + j) = length P"
proof (induction j)
  case 0
  then show ?case by (subst dotdotLoop.simps) simp
next
  case (Suc j)
  then have "j < length n" by simp
  then have "n ! j \<noteq> Separator" using Suc.prems(1) nth_mem by metis
  then have "(P @ Separator # n) ! (length P + Suc j) \<noteq> Separator"
    by (simp add: nth_append)
  then have "dotdotLoop (P @ Separator # n) dd (length P + Suc j)
      = dotdotLoop (P @ Separator # n) dd (length P + j)"
    using Suc.prems by (subst dotdotLoop.simps) simp
  then show ?case using Suc by simp
qed

lemma render_dd_le:
  "length (render rooted (dds k)) \<le> length (render rooted (dds k @ ns))"
proof (cases "k = 0 \<or> ns = []")
  case True
  then show ?thesis by (auto simp add: render_def)
next
  case False
  then show ?thesis by (simp add: render_def JoinStr_append)
qed

lemma backtrack:
  assumes "n \<noteq> []" "Separator \<notin> set n"
  shows "take (dotdotLoop (render rooted (dds k @ ns @ [n])) (length (render rooted (dds k)))
                 (length (render rooted (dds k @ ns @ [n])) - 1))
              (render rooted (dds k @ ns @ [n]))
         = render rooted (dds k @ ns)"
proof (cases "dds k @ ns = []")
  case True
  then have k: "k = 0" and ns: "ns = []" by simp_all
  let ?P = "render rooted []"
  have out: "render rooted [n] = ?P @ n"
    by (simp add: render_def)
  have "length (?P @ n) - 1 = length ?P + (length n - 1)"
    using assms(1) by (cases n) simp_all
  moreover have "dotdotLoop (?P @ n) (length ?P) (length ?P + (length n - 1)) = length ?P"
    using assms by (intro dotdotLoop_stop) simp_all
  ultimately have "take (dotdotLoop (?P @ n) (length ?P) (length (?P @ n) - 1)) (?P @ n) = ?P"
    by simp
  then show ?thesis by (simp add: k ns out)
next
  case False
  let ?P = "render rooted (dds k @ ns)"
  have out: "render rooted (dds k @ ns @ [n]) = ?P @ Separator # n"
    using False render_snoc [of rooted "dds k @ ns" n] by (simp add: separator_def)
  have "length (?P @ Separator # n) - 1 = length ?P + length n" by simp
  moreover have "dotdotLoop (?P @ Separator # n) (length (render rooted (dds k)))
        (length ?P + length n) = length ?P"
    using assms render_dd_le by (intro dotdotLoop_sep) simp_all
  ultimately show ?thesis by (simp add: out)
qed

lemma okElem_simps:
  "okElem e \<Longrightarrow> e \<noteq> []" "okElem e \<Longrightarrow> Separator \<notin> set e"
  "okElem e \<Longrightarrow> e \<noteq> ''.''" "okElem e \<Longrightarrow> e \<noteq> ''..''"
  by (simp_all add: okElem_def)

lemma cleanStep_skip [simp]:
  "cleanStep rooted stk [] = stk" "cleanStep rooted stk ''.'' = stk"
  by (simp_all add: cleanStep_def)

lemma cleanStep_ok: "okElem e \<Longrightarrow> cleanStep rooted stk e = stk @ [e]"
  by (simp add: cleanStep_def okElem_def)

lemma cleanStep_dotdot:
  "\<forall>e\<in>set ns. okElem e \<Longrightarrow> rooted \<longrightarrow> k = 0 \<Longrightarrow>
   cleanStep rooted (dds k @ ns) ''..''
     = (if ns \<noteq> [] then dds k @ butlast ns
        else if rooted then [] else dds (Suc k))"
proof (cases "ns = []")
  case True
  assume r: "rooted \<longrightarrow> k = 0"
  show ?thesis
  proof (cases k)
    case 0
    then show ?thesis using True by (simp add: cleanStep_def)
  next
    case (Suc j)
    then have "last (dds k) = ''..''" by simp
    moreover have "dds k \<noteq> []" using Suc by simp
    moreover have "dds k @ [''..''] = dds (Suc k)"
      by (metis replicate_Suc replicate_append_same)
    ultimately show ?thesis using True r Suc by (simp add: cleanStep_def)
  qed
next
  case False
  assume ok: "\<forall>e\<in>set ns. okElem e"
  have "last ns \<in> set ns" using False by simp
  then have "last ns \<noteq> ''..''" using ok okElem_simps(4) by blast
  then show ?thesis using False by (simp add: cleanStep_def butlast_append)
qed

lemma Split_hd_empty:
  "cs = [] \<or> hd cs = sep \<Longrightarrow> Split cs sep = [] # tl (Split cs sep)"
  by (cases cs) auto

lemma Split_hd_Nil:
  "cs = [] \<or> hd cs = sep \<Longrightarrow> hd (Split cs sep) = []"
  by (cases cs) auto

lemma foldl_cleanStep_Split_rest:
  "foldl (cleanStep rooted) S (Split (dropWhile (\<lambda>x. x \<noteq> sep) s) sep)
     = foldl (cleanStep rooted) S
         (case dropWhile (\<lambda>x. x \<noteq> sep) s of [] \<Rightarrow> [] | _ # r \<Rightarrow> Split r sep)"
proof (cases "dropWhile (\<lambda>x. x \<noteq> sep) s")
  case Nil
  show ?thesis unfolding Nil by simp
next
  case (Cons x r)
  then have "x = sep" using hd_dropWhile [of "\<lambda>x. x \<noteq> sep" s] by fastforce
  then show ?thesis using Cons by simp
qed

lemma dds_nonempty: "\<forall>e\<in>set (dds k). e \<noteq> []"
  by simp

lemma render_gt_dd:
  assumes "\<forall>e\<in>set ns. okElem e"
  shows "length (render rooted (dds k @ ns)) > length (render rooted (dds k)) \<longleftrightarrow> ns \<noteq> []"
proof (cases "ns = []")
  case True
  then show ?thesis by simp
next
  case False
  have ne: "JoinStr ns separator \<noteq> []"
    using assms False JoinStr_eq_Nil [of ns separator] okElem_simps(1) by blast
  show ?thesis
  proof (cases "k = 0")
    case True
    then show ?thesis using False ne by (simp add: render_def)
  next
    case k: False
    then show ?thesis using False by (simp add: render_def JoinStr_append separator_def)
  qed
qed

lemma render_push_dotdot:
  "(if length (render False (dds k)) > 0 then render False (dds k) @ [Separator]
    else render False (dds k)) @ ''..'' = render False (dds (Suc k))"
proof -
  have e: "dds (Suc k) = dds k @ [''..'']"
    by (metis replicate_Suc replicate_append_same)
  have "length (render False (dds k)) > 0 \<longleftrightarrow> dds k \<noteq> []"
    using render_empty_iff(2) [of "dds k"] by auto
  then show ?thesis unfolding e render_snoc by (simp add: separator_def render_def)
qed

lemma render_push:
  assumes "\<forall>e\<in>set stk. e \<noteq> []"
  shows "(if rooted \<and> length (render rooted stk) \<noteq> 1 \<or> \<not> rooted \<and> length (render rooted stk) \<noteq> 0
          then render rooted stk @ [Separator] else render rooted stk) @ e
         = render rooted (stk @ [e])"
proof -
  have "(rooted \<and> length (render rooted stk) \<noteq> 1 \<or> \<not> rooted \<and> length (render rooted stk) \<noteq> 0)
        \<longleftrightarrow> stk \<noteq> []"
    using render_empty_iff [OF assms] by (cases rooted) auto
  then show ?thesis unfolding render_snoc by (simp add: separator_def)
qed

lemma takeWhile_okElem:
  assumes "c \<noteq> Separator"
    and "\<not> (c = CHR ''.'' \<and> (cs = [] \<or> hd cs = Separator))"
    and "\<not> (c = CHR ''.'' \<and> hd cs = CHR ''.'' \<and> (tl cs = [] \<or> hd (tl cs) = Separator))"
  shows "okElem (takeWhile (\<lambda>x. x \<noteq> Separator) (c # cs))"
proof -
  let ?e = "takeWhile (\<lambda>x. x \<noteq> Separator) (c # cs)"
  have e: "?e = c # takeWhile (\<lambda>x. x \<noteq> Separator) cs" using assms(1) by simp
  have nosep: "Separator \<notin> set ?e" using set_takeWhileD by fastforce
  have nodot: "?e \<noteq> ''.''"
  proof
    assume "?e = ''.''"
    then have "c # takeWhile (\<lambda>x. x \<noteq> Separator) cs = ''.''" unfolding e .
    then have c: "c = CHR ''.''" and t: "takeWhile (\<lambda>x. x \<noteq> Separator) cs = []"
      by simp_all
    from t have "cs = [] \<or> hd cs = Separator" by (cases cs) (auto split: if_splits)
    with c assms(2) show False by blast
  qed
  have nodd: "?e \<noteq> ''..''"
  proof
    assume "?e = ''..''"
    then have "c # takeWhile (\<lambda>x. x \<noteq> Separator) cs = ''..''" unfolding e .
    then have c: "c = CHR ''.''" and t: "takeWhile (\<lambda>x. x \<noteq> Separator) cs = ''.''"
      by simp_all
    from t obtain r where cs: "cs = CHR ''.'' # r" and r: "takeWhile (\<lambda>x. x \<noteq> Separator) r = []"
      by (cases cs) (auto split: if_splits)
    from r have "r = [] \<or> hd r = Separator" by (cases r) (auto split: if_splits)
    with c cs assms(3) show False by simp
  qed
  show ?thesis using e nosep nodot nodd by (simp add: okElem_def)
qed

lemma cleanLoop_elem:
  assumes "c \<noteq> Separator"
    and "\<not> (c = CHR ''.'' \<and> (cs = [] \<or> hd cs = Separator))"
    and "\<not> (c = CHR ''.'' \<and> hd cs = CHR ''.'' \<and> (tl cs = [] \<or> hd (tl cs) = Separator))"
  shows "cleanLoop rooted (c # cs) out dd
     = cleanLoop rooted (dropWhile (\<lambda>x. x \<noteq> Separator) (c # cs))
         ((if rooted \<and> length out \<noteq> 1 \<or> \<not> rooted \<and> length out \<noteq> 0
           then out @ [Separator] else out) @ takeWhile (\<lambda>x. x \<noteq> Separator) (c # cs)) dd"
  by (subst cleanLoop.simps(2)) (simp only: assms if_False Let_def)

lemma cleanLoop_elems:
  "\<forall>e\<in>set ns. okElem e \<Longrightarrow> rooted \<longrightarrow> k = 0 \<Longrightarrow>
   cleanLoop rooted s (render rooted (dds k @ ns)) (length (render rooted (dds k)))
     = render rooted (foldl (cleanStep rooted) (dds k @ ns) (Split s Separator))"
proof (induction "length s" arbitrary: s k ns rule: less_induct)
  case less
  note ok = \<open>\<forall>e\<in>set ns. okElem e\<close> and rk = \<open>rooted \<longrightarrow> k = 0\<close>
  let ?out = "render rooted (dds k @ ns)"
  let ?dd = "length (render rooted (dds k))"
  let ?stk = "dds k @ ns"
  show ?case
  proof (cases s)
    case Nil
    then show ?thesis by simp
  next
    case (Cons c cs)
    have IH: "cleanLoop rooted s' (render rooted (dds k' @ ns')) (length (render rooted (dds k')))
          = render rooted (foldl (cleanStep rooted) (dds k' @ ns') (Split s' Separator))"
      if "length s' < length s" "\<forall>e\<in>set ns'. okElem e" "rooted \<longrightarrow> k' = 0" for s' k' ns'
      using less.hyps that by blast
    show ?thesis
    proof (cases "c = Separator")
      case True
      have "cleanLoop rooted s ?out ?dd = cleanLoop rooted cs ?out ?dd"
        unfolding Cons using True by (subst cleanLoop.simps(2)) simp
      also have "\<dots> = render rooted (foldl (cleanStep rooted) ?stk (Split cs Separator))"
        using IH [of cs ns k] ok rk Cons by simp
      also have "foldl (cleanStep rooted) ?stk (Split cs Separator)
          = foldl (cleanStep rooted) ?stk (Split s Separator)"
        unfolding Cons using True by simp
      finally show ?thesis .
    next
      case nsep: False
      show ?thesis
      proof (cases "c = CHR ''.'' \<and> (cs = [] \<or> hd cs = Separator)")
        case True
        have "cleanLoop rooted s ?out ?dd = cleanLoop rooted cs ?out ?dd"
          unfolding Cons using True nsep by (subst cleanLoop.simps(2)) simp
        also have "\<dots> = render rooted (foldl (cleanStep rooted) ?stk (Split cs Separator))"
          using IH [of cs ns k] ok rk Cons by simp
        also have "foldl (cleanStep rooted) ?stk (Split cs Separator)
            = foldl (cleanStep rooted) ?stk (Split s Separator)"
        proof -
          have h: "Split cs Separator = [] # tl (Split cs Separator)"
            using True Split_hd_empty by blast
          have "hd (Split cs Separator) = []" using True Split_hd_Nil by blast
          then have "Split s Separator = ''.'' # tl (Split cs Separator)"
            unfolding Cons using True nsep by simp
          moreover have "foldl (cleanStep rooted) ?stk (Split cs Separator)
              = foldl (cleanStep rooted) ?stk (tl (Split cs Separator))"
            by (subst h) simp
          ultimately show ?thesis by simp
        qed
        finally show ?thesis .
      next
        case ndot: False
        show ?thesis
        proof (cases "c = CHR ''.'' \<and> hd cs = CHR ''.'' \<and> (tl cs = [] \<or> hd (tl cs) = Separator)")
          case True
          have csne: "cs \<noteq> []" using True ndot by blast
          then obtain r where cs: "cs = CHR ''.'' # r" using True by (cases cs) auto
          have r: "r = [] \<or> hd r = Separator" using True cs by simp
          have h: "Split r Separator = [] # tl (Split r Separator)"
            using r Split_hd_empty by blast
          have "hd (Split r Separator) = []" using r Split_hd_Nil by blast
          then have sp: "Split s Separator = ''..'' # tl (Split r Separator)"
            unfolding Cons cs using True by (simp add: Separator_def)
          have fold: "foldl (cleanStep rooted) ?stk (Split s Separator)
              = foldl (cleanStep rooted) (cleanStep rooted ?stk ''..'') (Split r Separator)"
            by (subst h) (simp add: sp)
          have len: "length r < length s" unfolding Cons cs by simp
          show ?thesis
          proof (cases "ns = []")
            case False
            then have gt: "length ?out > ?dd" using render_gt_dd [OF ok] by blast
            obtain ns' n where nsn: "ns = ns' @ [n]"
              using False by (metis rev_exhaust)
            have okn: "okElem n" and ok': "\<forall>e\<in>set ns'. okElem e" using ok nsn by simp_all
            have st: "cleanStep rooted ?stk ''..'' = dds k @ ns'"
              using cleanStep_dotdot [OF ok rk] False nsn by simp
            have bt: "take (dotdotLoop ?out ?dd (length ?out - 1)) ?out = render rooted (dds k @ ns')"
              unfolding nsn using backtrack [of n rooted k ns'] okn okElem_simps(1,2) by blast
            have "cleanLoop rooted s ?out ?dd
                = cleanLoop rooted r (take (dotdotLoop ?out ?dd (length ?out - 1)) ?out) ?dd"
              unfolding Cons cs using True nsep ndot gt cs
              by (subst cleanLoop.simps(2)) simp
            also have "\<dots> = render rooted (foldl (cleanStep rooted) (dds k @ ns') (Split r Separator))"
              unfolding bt using IH [of r ns' k] len ok' rk by simp
            finally show ?thesis unfolding fold st .
          next
            case nsE: True
            then have ngt: "\<not> length ?out > ?dd" by simp
            show ?thesis
            proof (cases rooted)
              case True
              have st: "cleanStep rooted ?stk ''..'' = ?stk"
                using cleanStep_dotdot [OF ok rk] nsE True rk by simp
              have "cleanLoop rooted s ?out ?dd = cleanLoop rooted r ?out ?dd"
                unfolding Cons cs using \<open>c = CHR ''.'' \<and> hd cs = CHR ''.'' \<and> (tl cs = [] \<or> hd (tl cs) = Separator)\<close>
                  nsep ndot ngt cs True
                by (subst cleanLoop.simps(2)) simp
              also have "\<dots> = render rooted (foldl (cleanStep rooted) ?stk (Split r Separator))"
                using IH [of r ns k] len ok rk by simp
              finally show ?thesis unfolding fold st .
            next
              case False
              let ?out' = "render False (dds (Suc k))"
              have st: "cleanStep rooted ?stk ''..'' = dds (Suc k) @ []"
                using cleanStep_dotdot [OF ok rk] nsE False by simp
              have eqout: "?out = render False (dds k)" using nsE False by simp
              have o': "(if length ?out > 0 then ?out @ [Separator] else ?out) @ ''..'' = ?out'"
                unfolding eqout by (rule render_push_dotdot)
              have "cleanLoop rooted s ?out ?dd
                  = cleanLoop rooted r ((if length ?out > 0 then ?out @ [Separator] else ?out) @ ''..'')
                      (length ((if length ?out > 0 then ?out @ [Separator] else ?out) @ ''..''))"
                unfolding Cons cs using \<open>c = CHR ''.'' \<and> hd cs = CHR ''.'' \<and> (tl cs = [] \<or> hd (tl cs) = Separator)\<close>
                  nsep ndot ngt cs False
                by (subst cleanLoop.simps(2)) (simp add: Let_def)
              also have "\<dots> = cleanLoop rooted r (render rooted (dds (Suc k) @ []))
                                   (length (render rooted (dds (Suc k))))"
                unfolding o' using False by simp
              also have "\<dots> = render rooted (foldl (cleanStep rooted) (dds (Suc k) @ []) (Split r Separator))"
                using IH [of r "[]" "Suc k"] len False by simp
              finally show ?thesis unfolding fold st .
            qed
          qed
        next
          case ndd: False
          let ?e = "takeWhile (\<lambda>x. x \<noteq> Separator) (c # cs)"
          let ?rest = "dropWhile (\<lambda>x. x \<noteq> Separator) (c # cs)"
          have oke: "okElem ?e" using takeWhile_okElem [OF nsep ndot ndd] .
          have ne: "\<forall>e\<in>set ?stk. e \<noteq> []" using ok okElem_simps(1) by auto
          have o': "(if rooted \<and> length ?out \<noteq> 1 \<or> \<not> rooted \<and> length ?out \<noteq> 0
                     then ?out @ [Separator] else ?out) @ ?e = render rooted (dds k @ (ns @ [?e]))"
            using render_push [OF ne, of rooted ?e] by simp
          have len: "length ?rest < length s"
            unfolding Cons using nsep length_dropWhile_le [of "\<lambda>x. x \<noteq> Separator" cs]
            by (simp add: le_imp_less_Suc)
          have ok': "\<forall>x\<in>set (ns @ [?e]). okElem x" using ok oke by simp
          have "cleanLoop rooted s ?out ?dd
              = cleanLoop rooted ?rest
                  ((if rooted \<and> length ?out \<noteq> 1 \<or> \<not> rooted \<and> length ?out \<noteq> 0
                     then ?out @ [Separator] else ?out) @ ?e) ?dd"
            unfolding Cons using nsep ndot ndd by (rule cleanLoop_elem)
          also have "\<dots> = render rooted (foldl (cleanStep rooted) (dds k @ (ns @ [?e])) (Split ?rest Separator))"
            unfolding o' using IH [of ?rest "ns @ [?e]" k] len ok' rk by blast
          also have "foldl (cleanStep rooted) (dds k @ (ns @ [?e])) (Split ?rest Separator)
              = foldl (cleanStep rooted) ?stk (Split s Separator)"
          proof -
            have "Split s Separator = ?e # (case ?rest of [] \<Rightarrow> [] | _ # r \<Rightarrow> Split r Separator)"
              unfolding Cons by (rule Split_takeWhile)
            then have "foldl (cleanStep rooted) ?stk (Split s Separator)
                = foldl (cleanStep rooted) (?stk @ [?e])
                    (case ?rest of [] \<Rightarrow> [] | _ # r \<Rightarrow> Split r Separator)"
              using cleanStep_ok [OF oke] by simp
            then show ?thesis using foldl_cleanStep_Split_rest [of rooted "?stk @ [?e]" Separator "c # cs"]
              by simp
          qed
          finally show ?thesis .
        qed
      qed
    qed
  qed
qed

lemma HasPrefix_slash: "HasPrefix p ''/'' \<longleftrightarrow> p \<noteq> [] \<and> hd p = Separator"
  by (cases p) (auto simp add: HasPrefix_def Separator_def)

lemma Clean_elems: "Clean path = orDot (render (HasPrefix path ''/'') (elems path))"
proof (cases path)
  case Nil
  then show ?thesis
    by (simp add: Clean_def elems_def orDot_def render_def HasPrefix_def)
next
  case (Cons c t)
  show ?thesis
  proof (cases "c = Separator")
    case True
    have "cleanLoop True t (render True (dds 0 @ [])) (length (render True (dds 0)))
        = render True (foldl (cleanStep True) (dds 0 @ []) (Split t Separator))"
      by (rule cleanLoop_elems) simp_all
    then have "cleanLoop True t [Separator] 1 = render True (foldl (cleanStep True) [] (Split t Separator))"
      by (simp add: render_def)
    moreover have "HasPrefix path ''/''" using Cons True by (simp add: HasPrefix_slash)
    moreover have "Split path Separator = [] # Split t Separator" using Cons True by simp
    ultimately show ?thesis using Cons True
      by (simp add: Clean_def elems_def orDot_def)
  next
    case False
    have "cleanLoop False path (render False (dds 0 @ [])) (length (render False (dds 0)))
        = render False (foldl (cleanStep False) (dds 0 @ []) (Split path Separator))"
      by (rule cleanLoop_elems) simp_all
    then have "cleanLoop False path [] 0 = render False (foldl (cleanStep False) [] (Split path Separator))"
      by (simp add: render_def)
    moreover have "\<not> HasPrefix path ''/''" using Cons False by (simp add: HasPrefix_slash)
    ultimately show ?thesis using Cons False
      by (simp add: Clean_def elems_def orDot_def)
  qed
qed

lemma Split_no_sep: "e \<in> set (Split s sep) \<Longrightarrow> sep \<notin> set e"
proof (induction s arbitrary: e)
  case Nil
  then show ?case by simp
next
  case (Cons c s)
  show ?case
  proof (cases "c = sep")
    case True
    then show ?thesis using Cons by auto
  next
    case False
    have "Split s sep = hd (Split s sep) # tl (Split s sep)" by simp
    then have hdin: "hd (Split s sep) \<in> set (Split s sep)"
      and tlin: "set (tl (Split s sep)) \<subseteq> set (Split s sep)"
      by (metis list.set_intros(1), metis list.set_intros(2) subsetI)
    from Cons.prems False have "e = c # hd (Split s sep) \<or> e \<in> set (tl (Split s sep))"
      by simp
    then show ?thesis using Cons.IH hdin tlin False by auto
  qed
qed

lemma wfStack_Nil [simp]: "wfStack rooted []"
  unfolding wfStack_def by (rule exI [of _ 0]) simp

lemma wfStack_step:
  assumes "wfStack rooted stk" "Separator \<notin> set e"
  shows "wfStack rooted (cleanStep rooted stk e)"
proof -
  from assms(1) obtain k ns where stk: "stk = dds k @ ns"
    and ok: "\<forall>e\<in>set ns. okElem e" and rk: "rooted \<longrightarrow> k = 0"
    unfolding wfStack_def by blast
  consider "e = [] \<or> e = ''.''" | "e = ''..''" | "okElem e"
    using assms(2) okElem_def by blast
  then show ?thesis
  proof cases
    case 1
    then show ?thesis using assms(1) by auto
  next
    case 2
    have okb: "\<forall>e\<in>set (butlast ns). okElem e" using ok by (meson in_set_butlastD)
    show ?thesis
    proof (cases "ns = []")
      case False
      then have "cleanStep rooted stk e = dds k @ butlast ns"
        unfolding stk 2 using cleanStep_dotdot [OF ok rk] by simp
      then show ?thesis unfolding wfStack_def using okb rk by blast
    next
      case True
      show ?thesis
      proof (cases rooted)
        case True
        then have "cleanStep rooted stk e = []"
          unfolding stk 2 using cleanStep_dotdot [OF ok rk] \<open>ns = []\<close> by simp
        then show ?thesis by simp
      next
        case False
        then have "cleanStep rooted stk e = dds (Suc k) @ []"
          unfolding stk 2 using cleanStep_dotdot [OF ok rk] \<open>ns = []\<close> by simp
        moreover have "\<forall>e\<in>set ([]::string list). okElem e" by simp
        ultimately show ?thesis unfolding wfStack_def using False by blast
      qed
    qed
  next
    case 3
    then have "cleanStep rooted stk e = dds k @ (ns @ [e])"
      unfolding stk using cleanStep_ok by simp
    moreover have "\<forall>x\<in>set (ns @ [e]). okElem x" using ok 3 by simp
    ultimately show ?thesis unfolding wfStack_def using rk by blast
  qed
qed

lemma wfStack_foldl:
  "wfStack rooted stk \<Longrightarrow> \<forall>e\<in>set es. Separator \<notin> set e
     \<Longrightarrow> wfStack rooted (foldl (cleanStep rooted) stk es)"
  by (induction es arbitrary: stk) (simp_all add: wfStack_step)

lemma wfStack_elems: "wfStack (HasPrefix path ''/'') (elems path)"
  unfolding elems_def by (rule wfStack_foldl) (simp_all add: Split_no_sep)

lemma wfStack_True: "wfStack True stk \<longleftrightarrow> (\<forall>e\<in>set stk. okElem e)"
proof
  assume "wfStack True stk"
  then obtain k ns where "stk = dds k @ ns" "\<forall>e\<in>set ns. okElem e" "k = 0"
    unfolding wfStack_def by blast
  then show "\<forall>e\<in>set stk. okElem e" by simp
next
  assume "\<forall>e\<in>set stk. okElem e"
  then have "stk = dds 0 @ stk \<and> (\<forall>e\<in>set stk. okElem e) \<and> (True \<longrightarrow> (0::nat) = 0)" by simp
  then show "wfStack True stk" unfolding wfStack_def by blast
qed

lemma wfStack_append:
  assumes "wfStack rooted stk" "\<forall>e\<in>set cs. okElem e"
  shows "wfStack rooted (stk @ cs)"
proof -
  from assms(1) obtain k ns where stk: "stk = dds k @ ns"
    and ok: "\<forall>e\<in>set ns. okElem e" and rk: "rooted \<longrightarrow> k = 0"
    unfolding wfStack_def by blast
  have "stk @ cs = dds k @ (ns @ cs)" using stk by simp
  moreover have "\<forall>e\<in>set (ns @ cs). okElem e" using ok assms(2) by auto
  ultimately show ?thesis unfolding wfStack_def using rk by blast
qed

lemma dotdot_no_sep: "Separator \<notin> set ''..''"
  by (simp add: Separator_def)

lemma wfStack_nonempty:
  assumes "wfStack rooted stk" "e \<in> set stk"
  shows "e \<noteq> [] \<and> Separator \<notin> set e"
proof -
  from assms(1) obtain k ns where stk: "stk = dds k @ ns"
    and ok: "\<forall>e\<in>set ns. okElem e"
    unfolding wfStack_def by blast
  from assms(2) stk have "e = ''..'' \<or> e \<in> set ns" by auto
  then show ?thesis
  proof
    assume "e = ''..''"
    then show ?thesis using dotdot_no_sep by simp
  next
    assume "e \<in> set ns"
    then have "okElem e" using ok by blast
    then show ?thesis using okElem_simps(1,2) by blast
  qed
qed

lemma foldl_cleanStep_ok:
  "\<forall>e\<in>set cs. okElem e \<Longrightarrow> foldl (cleanStep rooted) S cs = S @ cs"
  by (induction cs arbitrary: S) (simp_all add: cleanStep_ok)

lemma foldl_cleanStep_dds:
  "\<not> rooted \<Longrightarrow> foldl (cleanStep rooted) (dds j) (dds k) = dds (j + k)"
proof (induction k arbitrary: j)
  case 0
  then show ?case by simp
next
  case (Suc k)
  have "cleanStep rooted (dds j @ []) ''..'' = dds (Suc j)"
    using Suc.prems by (subst cleanStep_dotdot) simp_all
  then show ?case using Suc.IH [of "Suc j"] Suc.prems by simp
qed

lemma foldl_cleanStep_wf:
  assumes "wfStack rooted S"
  shows "foldl (cleanStep rooted) [] S = S"
proof -
  from assms obtain k ns where S: "S = dds k @ ns"
    and ok: "\<forall>e\<in>set ns. okElem e" and rk: "rooted \<longrightarrow> k = 0"
    unfolding wfStack_def by blast
  have "foldl (cleanStep rooted) [] (dds k) = dds k"
  proof (cases rooted)
    case True
    then show ?thesis using rk by simp
  next
    case False
    then show ?thesis using foldl_cleanStep_dds [of rooted 0 k] by simp
  qed
  then show ?thesis unfolding S using foldl_cleanStep_ok [OF ok] by simp
qed

lemma Split_nosep: "sep \<notin> set e \<Longrightarrow> Split e sep = [e]"
  by (induction e) auto

lemma Split_JoinStr:
  "cs \<noteq> [] \<Longrightarrow> \<forall>e\<in>set cs. sep \<notin> set e \<Longrightarrow> Split (JoinStr cs [sep]) sep = cs"
proof (induction cs "[sep]" rule: JoinStr.induct)
  case 1
  then show ?case by simp
next
  case (2 e)
  then show ?case by (simp add: Split_nosep)
next
  case (3 e v va)
  have "Split (e @ sep # JoinStr (v # va) [sep]) sep = Split e sep @ Split (JoinStr (v # va) [sep]) sep"
    by (rule Split_append_sep)
  then show ?case using 3 by (simp add: Split_nosep)
qed

lemma Split_render:
  assumes "wfStack rooted S"
  shows "Split (render rooted S) Separator
           = (if rooted then [[]] else []) @ (if S = [] then [[]] else S)"
proof -
  have ns: "\<forall>e\<in>set S. Separator \<notin> set e" using assms wfStack_nonempty by blast
  have j: "Split (JoinStr S separator) Separator = (if S = [] then [[]] else S)"
    using Split_JoinStr [of S Separator] ns by (simp add: separator_def)
  show ?thesis
  proof (cases rooted)
    case True
    then show ?thesis using j by (simp add: render_def)
  next
    case False
    then show ?thesis using j by (simp add: render_def)
  qed
qed

lemma JoinStr_hd:
  "S \<noteq> [] \<Longrightarrow> hd S \<noteq> [] \<Longrightarrow> JoinStr S sep \<noteq> [] \<and> hd (JoinStr S sep) = hd (hd S)"
  by (induction S sep rule: JoinStr.induct) auto

lemma HasPrefix_render:
  assumes "wfStack rooted S"
  shows "HasPrefix (render rooted S) ''/'' \<longleftrightarrow> rooted"
proof (cases rooted)
  case True
  then show ?thesis by (simp add: render_def HasPrefix_slash)
next
  case False
  show ?thesis
  proof (cases "S = []")
    case True
    then show ?thesis using False by (simp add: render_def HasPrefix_slash)
  next
    case ne: False
    then have "hd S \<in> set S" by simp
    then have h: "hd S \<noteq> [] \<and> Separator \<notin> set (hd S)"
      using assms wfStack_nonempty by blast
    then have "hd (hd S) \<noteq> Separator" by (cases "hd S") auto
    then show ?thesis using False ne h JoinStr_hd [of S separator]
      by (simp add: render_def HasPrefix_slash)
  qed
qed

lemma elems_render:
  assumes "wfStack rooted S" "rooted \<or> S \<noteq> []"
  shows "elems (render rooted S) = S" and "HasPrefix (render rooted S) ''/'' = rooted"
proof -
  show r: "HasPrefix (render rooted S) ''/'' = rooted" using HasPrefix_render [OF assms(1)] by simp
  have "foldl (cleanStep rooted) [] (Split (render rooted S) Separator)
      = foldl (cleanStep rooted) [] S"
    unfolding Split_render [OF assms(1)] using assms(2) by (cases rooted; cases "S = []") simp_all
  then show "elems (render rooted S) = S"
    unfolding elems_def r using foldl_cleanStep_wf [OF assms(1)] by simp
qed

lemma render_ne:
  assumes "wfStack rooted S" "rooted \<or> S \<noteq> []"
  shows "render rooted S \<noteq> []"
proof (cases rooted)
  case True
  then show ?thesis by (simp add: render_def)
next
  case False
  then have "S \<noteq> []" using assms(2) by simp
  moreover have "\<forall>e\<in>set S. e \<noteq> []" using assms(1) wfStack_nonempty by blast
  ultimately show ?thesis using False JoinStr_eq_Nil [of S separator] by (simp add: render_def)
qed

lemma Clean_dot: "Clean ''.'' = ''.''"
  by code_simp

text \<open>Cleaning is idempotent on what it produces.\<close>

lemma Clean_orDot_render:
  assumes "wfStack rooted S"
  shows "Clean (orDot (render rooted S)) = orDot (render rooted S)"
proof (cases "rooted \<or> S \<noteq> []")
  case True
  have ne: "render rooted S \<noteq> []" using render_ne [OF assms True] .
  then have "orDot (render rooted S) = render rooted S" by (simp add: orDot_def)
  then show ?thesis
    using Clean_elems [of "render rooted S"] elems_render [OF assms True] by simp
next
  case False
  then show ?thesis by (simp add: render_def orDot_def Clean_dot)
qed


lemma elems_snoc_sep:
  assumes "p \<noteq> []"
  shows "elems (p @ separator) = elems p"
proof -
  have "HasPrefix (p @ separator) ''/'' = HasPrefix p ''/''"
    using assms by (cases p) (simp_all add: HasPrefix_slash)
  moreover have "Split (p @ separator) Separator = Split p Separator @ [[]]"
    using Split_append_sep [of p Separator "[]"] by (simp add: separator_def)
  ultimately show ?thesis by (simp add: elems_def)
qed

lemma Clean_snoc_sep:
  assumes "p \<noteq> []"
  shows "Clean (p @ separator) = Clean p"
proof -
  have "HasPrefix (p @ separator) ''/'' = HasPrefix p ''/''"
    using assms by (cases p) (simp_all add: HasPrefix_slash)
  then show ?thesis unfolding Clean_elems using elems_snoc_sep [OF assms] by simp
qed

text \<open>Joining a non-empty root with a cleaned, rooted request path.\<close>

lemma elems_root_join:
  assumes "root \<noteq> []" "\<forall>e\<in>set cs. okElem e"
  shows "elems (root @ separator @ render True cs) = elems root @ cs"
    and "HasPrefix (root @ separator @ render True cs) ''/'' = HasPrefix root ''/''"
proof -
  let ?rt = "HasPrefix root ''/''"
  show r: "HasPrefix (root @ separator @ render True cs) ''/'' = ?rt"
    using assms(1) by (cases root) (simp_all add: HasPrefix_slash)
  have wf: "wfStack True cs" using assms(2) wfStack_True by blast
  have "Split (root @ separator @ render True cs) Separator
      = Split root Separator @ Split (render True cs) Separator"
    using Split_append_sep [of root Separator "render True cs"] by (simp add: separator_def)
  also have "\<dots> = Split root Separator @ [[]] @ (if cs = [] then [[]] else cs)"
    using Split_render [OF wf] by simp
  finally have "foldl (cleanStep ?rt) [] (Split (root @ separator @ render True cs) Separator)
      = foldl (cleanStep ?rt) (elems root) cs"
    by (simp add: elems_def)
  then show "elems (root @ separator @ render True cs) = elems root @ cs"
    unfolding elems_def r using foldl_cleanStep_ok [OF assms(2)] by (simp add: elems_def)
qed

lemma Clean_slash_req:
  "Clean (''/'' @ reqPath) = render True (elems (''/'' @ reqPath))"
  "\<forall>e\<in>set (elems (''/'' @ reqPath)). okElem e"
proof -
  have r: "HasPrefix (''/'' @ reqPath) ''/''" by (simp add: HasPrefix_def)
  have "wfStack True (elems (''/'' @ reqPath))" using wfStack_elems [of "''/'' @ reqPath"] r by simp
  then show "\<forall>e\<in>set (elems (''/'' @ reqPath)). okElem e" using wfStack_True by blast
  show "Clean (''/'' @ reqPath) = render True (elems (''/'' @ reqPath))"
    unfolding Clean_elems using r by (simp add: orDot_def render_def)
qed

lemma Join_root_req:
  "Join [normRoot root, Clean (''/'' @ reqPath)]
     = orDot (render (HasPrefix (normRoot root) ''/'') (elems (normRoot root) @ elems (''/'' @ reqPath)))"
proof -
  have ne: "normRoot root \<noteq> []" by (simp add: normRoot_def)
  have "Join [normRoot root, Clean (''/'' @ reqPath)]
      = Clean (normRoot root @ separator @ Clean (''/'' @ reqPath))"
    using ne by (simp add: Join_def)
  also have "\<dots> = Clean (normRoot root @ separator @ render True (elems (''/'' @ reqPath)))"
    using Clean_slash_req(1) by simp
  also have "\<dots> = orDot (render (HasPrefix (normRoot root) ''/'') (elems (normRoot root) @ elems (''/'' @ reqPath)))"
    unfolding Clean_elems using elems_root_join [OF ne Clean_slash_req(2)] by simp
  finally show ?thesis .
qed

lemma SanitizedPathJoin_elems:
  "SanitizedPathJoin root reqPath
     = orDot (render (HasPrefix (normRoot root) ''/'') (elems (normRoot root) @ elems (''/'' @ reqPath)))
       @ (if HasSuffix reqPath ''/'' \<and> length reqPath > 1 then separator else [])"
  using Join_root_req [of root reqPath]
  by (simp add: SanitizedPathJoin_def normRoot_def Let_def)

lemma JoinStr_downward:
  assumes "cs \<noteq> []" "\<forall>e\<in>set cs. okElem e"
  shows "\<not> HasPrefix (JoinStr cs separator) ''/''"
    and "JoinStr cs separator \<noteq> ''..''"
    and "\<not> HasPrefix (JoinStr cs separator) ''../''"
proof -
  let ?J = "JoinStr cs separator"
  have ns: "\<forall>e\<in>set cs. Separator \<notin> set e" using assms(2) okElem_simps(2) by blast
  have sp: "Split ?J Separator = cs"
    using Split_JoinStr [OF assms(1) ns] by (simp add: separator_def)
  have hd: "okElem (hd cs)" using assms by simp
  show "\<not> HasPrefix ?J ''/''"
  proof
    assume "HasPrefix ?J ''/''"
    then obtain t where "?J = Separator # t"
      by (cases ?J) (auto simp add: HasPrefix_def Separator_def)
    then have "Split ?J Separator = [] # Split t Separator" by simp
    then have "hd cs = []" using sp by simp
    then show False using hd okElem_simps(1) by blast
  qed
  show "?J \<noteq> ''..''"
  proof
    assume "?J = ''..''"
    then have "Split ?J Separator = [''..'']" by (simp add: Separator_def)
    then have "hd cs = ''..''" using sp by simp
    then show False using hd okElem_simps(4) by blast
  qed
  show "\<not> HasPrefix ?J ''../''"
  proof
    assume "HasPrefix ?J ''../''"
    then obtain t where "?J = ''..'' @ Separator # t"
      by (auto simp add: HasPrefix_def prefix_def Separator_def)
    then have "Split ?J Separator = Split ''..'' Separator @ Split t Separator"
      using Split_append_sep by simp
    then have "Split ?J Separator = ''..'' # Split t Separator" by (simp add: Separator_def)
    then have "hd cs = ''..''" using sp by (metis list.sel(1))
    then show False using hd okElem_simps(4) by blast
  qed
qed

lemma Clean_normRoot: "Clean (normRoot root) = Clean root"
proof (cases "root = []")
  case True
  have "Clean [] = ''.''" by (simp add: Clean_def)
  then show ?thesis using True by (simp add: normRoot_def Clean_dot)
next
  case False
  then show ?thesis by (simp add: normRoot_def)
qed

lemma orDot_ne [simp]: "orDot s \<noteq> []"
  by (simp add: orDot_def)

lemma Clean_SanitizedPathJoin:
  "Clean (SanitizedPathJoin root reqPath)
     = orDot (render (HasPrefix (normRoot root) ''/'') (elems (normRoot root) @ elems (''/'' @ reqPath)))"
proof -
  let ?rt = "HasPrefix (normRoot root) ''/''"
  let ?S = "elems (normRoot root) @ elems (''/'' @ reqPath)"
  have wf: "wfStack ?rt ?S"
    using wfStack_append [OF wfStack_elems Clean_slash_req(2)] .
  have idem: "Clean (orDot (render ?rt ?S)) = orDot (render ?rt ?S)"
    using Clean_orDot_render [OF wf] .
  show ?thesis
  proof (cases "HasSuffix reqPath ''/'' \<and> length reqPath > 1")
    case True
    then have "SanitizedPathJoin root reqPath = orDot (render ?rt ?S) @ separator"
      using SanitizedPathJoin_elems [of root reqPath] by simp
    then show ?thesis using Clean_snoc_sep [of "orDot (render ?rt ?S)"] idem by simp
  next
    case False
    have "SanitizedPathJoin root reqPath = orDot (render ?rt ?S)"
      using SanitizedPathJoin_elems [of root reqPath] by (simp only: False if_False append_Nil2)
    then show ?thesis using idem by simp
  qed
qed

lemma within_root_join:
  assumes wf: "wfStack rt S0" and ok: "\<forall>e\<in>set cs. okElem e"
  shows "let r = orDot (render rt S0); c = orDot (render rt (S0 @ cs));
             base = (if r = ''/'' then ''/'' else if r = ''.'' then [] else r @ ''/'');
             rest = drop (length base) c
         in c = r \<or> (HasPrefix c base \<and> \<not> HasPrefix rest ''/'' \<and> rest \<noteq> ''..''
                      \<and> \<not> HasPrefix rest ''../'')"
proof (cases "cs = []")
  case True
  then show ?thesis by (simp add: Let_def)
next
  case False
  let ?J = "JoinStr cs separator"
  note J = JoinStr_downward [OF False ok]
  have wf2: "wfStack rt (S0 @ cs)" using wfStack_append [OF wf ok] .
  have c: "orDot (render rt (S0 @ cs)) = render rt (S0 @ cs)"
    using render_ne [OF wf2] False by (simp add: orDot_def)
  show ?thesis
  proof (cases "S0 = []")
    case True
    show ?thesis
    proof (cases rt)
      case rtT: True
      have r: "orDot (render rt S0) = ''/''" using True rtT by (simp add: render_def orDot_def Separator_def)
      have c': "render rt (S0 @ cs) = ''/'' @ ?J" using True rtT by (simp add: render_def Separator_def)
      show ?thesis unfolding Let_def r c' using J by (simp add: HasPrefix_def orDot_def)
    next
      case rtF: False
      have r: "orDot (render rt S0) = ''.''" using True rtF by (simp add: render_def orDot_def)
      have c': "render rt (S0 @ cs) = ?J" using True rtF by (simp add: render_def)
      show ?thesis unfolding Let_def r c' using J by (simp add: HasPrefix_def orDot_def)
    qed
  next
    case ne: False
    let ?r = "render rt S0"
    have rne: "?r \<noteq> []" using render_ne [OF wf] ne by simp
    then have r: "orDot ?r = ?r" by (simp add: orDot_def)
    have c': "render rt (S0 @ cs) = ?r @ ''/'' @ ?J"
      using ne False by (simp add: render_def JoinStr_append separator_def Separator_def)
    have el: "elems ?r = S0" using elems_render(1) [OF wf] ne by simp
    have nslash: "?r \<noteq> ''/''"
    proof
      assume a: "?r = ''/''"
      have "elems ''/'' = []" by code_simp
      then show False using el ne a by simp
    qed
    have ndot: "?r \<noteq> ''.''"
    proof
      assume a: "?r = ''.''"
      have "elems ''.'' = []" by code_simp
      then show False using el ne a by simp
    qed
    show ?thesis unfolding Let_def r c' using J nslash ndot by (simp add: HasPrefix_def orDot_def)
  qed
qed

text \<open>
  Claim C1.  For every root (the empty one stands for the current directory) and every
  request path, whatever \<open>..\<close> elements it holds, the path that \<open>SanitizedPathJoin\<close>
  returns lies lexically within the root: cleaned, it is the cleaned root itself or the
  cleaned root followed by elements none of which climbs out of it.
\<close>

theorem SanitizedPathJoin_within_root:
  "within root (SanitizedPathJoin root reqPath)"
proof -
  let ?rt = "HasPrefix (normRoot root) ''/''"
  have r: "Clean root = orDot (render ?rt (elems (normRoot root)))"
    using Clean_normRoot [of root] Clean_elems [of "normRoot root"] by simp
  show ?thesis
    unfolding within_def r Clean_SanitizedPathJoin
    using within_root_join [OF wfStack_elems Clean_slash_req(2), of "normRoot root" reqPath] .
qed

theorem SanitizedPathJoin_within_root_witness:
  "within ''/site'' (SanitizedPathJoin ''/site'' ''/../../etc/passwd'')
   \<and> SanitizedPathJoin ''/site'' ''/../../etc/passwd'' = ''/site/etc/passwd''
   \<and> within [] (SanitizedPathJoin [] ''a/../../../b/'')
   \<and> SanitizedPathJoin [] ''a/../../../b/'' = ''b/''
   \<and> \<not> within ''/site'' ''/site/../etc/passwd''"
proof -
  have a: "within ''/site'' (SanitizedPathJoin ''/site'' ''/../../etc/passwd'')"
    using SanitizedPathJoin_within_root [of "''/site''" "''/../../etc/passwd''"] .
  have b: "within [] (SanitizedPathJoin [] ''a/../../../b/'')"
    using SanitizedPathJoin_within_root [of "[]" "''a/../../../b/''"] .
  have c: "SanitizedPathJoin ''/site'' ''/../../etc/passwd'' = ''/site/etc/passwd''"
    by code_simp
  have d: "SanitizedPathJoin [] ''a/../../../b/'' = ''b/''"
    by code_simp
  have e: "\<not> within ''/site'' ''/site/../etc/passwd''"
    by code_simp
  from a b c d e show ?thesis by blast
qed










section \<open>Properties of the hidden-path matcher\<close>

text \<open>
  The loop over the hide list computes a disjunction over its patterns: the lazily
  computed components are always the split of the file name.
\<close>

lemma fileHiddenLoop_ex:
  "components = [] \<or> components = Split filename Separator
     \<Longrightarrow> fileHiddenLoop filename components hide = (\<exists>h\<in>set hide. hiddenBy filename h)"
proof (induction hide arbitrary: components)
  case Nil
  then show ?case by simp
next
  case (Cons h hide)
  show ?case
  proof (cases "Contains h separator")
    case True
    then show ?thesis using Cons.IH [OF Cons.prems]
      by (auto simp add: hiddenBy_def TrimPrefix_def)
  next
    case False
    have "fileHiddenLoop filename components (h # hide)
        = (list_ex (\<lambda>c. fst (Match h c)) (Split filename Separator) \<or> fst (Match h filename)
           \<or> fileHiddenLoop filename (Split filename Separator) hide)"
    proof (cases "components = []")
      case True
      then show ?thesis using False by (simp add: Let_def)
    next
      case ne: False
      then have "components = Split filename Separator" using Cons.prems by simp
      then show ?thesis using False by (simp add: Let_def)
    qed
    then show ?thesis using Cons.IH [of "Split filename Separator"] False
      by (auto simp add: hiddenBy_def)
  qed
qed

lemma fileHidden_ex:
  "fileHidden wd filename hide = (\<exists>h\<in>set hide. hiddenBy (absOr wd filename) h)"
proof (cases "hide = []")
  case True
  then show ?thesis by (simp add: fileHidden_def)
next
  case False
  then show ?thesis
    using fileHiddenLoop_ex [of "[]" "absOr wd filename" hide]
    by (simp add: fileHidden_def absOr_def)
qed

text \<open>
  Claim C7.  With the empty hide list \<open>fileHidden\<close> is false for every path, and it is
  monotonic in the hide list: when every pattern of \<open>h1\<close> is among those of \<open>h2\<close>, a path
  hidden under \<open>h1\<close> is hidden under \<open>h2\<close>.
\<close>

theorem fileHidden_monotonic:
  "fileHidden wd p [] = False
   \<and> (set h1 \<subseteq> set h2 \<and> fileHidden wd p h1 \<longrightarrow> fileHidden wd p h2)"
  unfolding fileHidden_ex by auto

theorem fileHidden_monotonic_witness:
  "set [''bar''] \<subseteq> set [''*.txt'', ''bar'', ''/private'']
   \<and> fileHidden (Some ''/srv/app'') ''/x/bar/y'' [''bar'']
   \<and> fileHidden (Some ''/srv/app'') ''/x/bar/y'' [''*.txt'', ''bar'', ''/private'']
   \<and> fileHidden (Some ''/srv/app'') ''/x/bar/y'' [] = False"
proof -
  have a: "set [''bar''] \<subseteq> set [''*.txt'', ''bar'', ''/private'']" by simp
  have b: "fileHidden (Some ''/srv/app'') ''/x/bar/y'' [''bar'']" by code_simp
  have c: "fileHidden (Some ''/srv/app'') ''/x/bar/y'' [''*.txt'', ''bar'', ''/private'']"
    using fileHidden_monotonic [of "Some ''/srv/app''" "''/x/bar/y''" "[''bar'']"
        "[''*.txt'', ''bar'', ''/private'']"] a b by blast
  have d: "fileHidden (Some ''/srv/app'') ''/x/bar/y'' [] = False"
    using fileHidden_monotonic [of "Some ''/srv/app''" "''/x/bar/y''"] by blast
  from a b c d show ?thesis by blast
qed

lemma scanLoop_no_star: "CHR ''*'' \<notin> set p \<Longrightarrow> scanLoop inrange p = length p"
  by (induction inrange p rule: scanLoop.induct) auto

lemma matchChunk_literal:
  "literal h \<Longrightarrow> matchChunk h (h @ t) False = (t, True, None)"
proof (induction h)
  case Nil
  then show ?case by simp
next
  case (Cons c h)
  then have c: "c \<noteq> CHR ''['' \<and> c \<noteq> CHR ''?'' \<and> c \<noteq> CHR 0x5C" and h: "literal h"
    by (simp_all add: literal_def)
  have "matchChunk (c # h) ((c # h) @ t) False = matchChunk h (h @ t) False"
    using c by (subst matchChunk.simps(2)) (simp add: Let_def)
  then show ?case using Cons.IH [OF h] by simp
qed

lemma Match_literal: "literal h \<Longrightarrow> Match h h = (True, None)"
proof (cases "h = []")
  case True
  then show ?thesis by (subst Match.simps) simp
next
  case False
  assume lit: "literal h"
  then have nostar: "CHR ''*'' \<notin> set h" by (auto simp add: literal_def)
  then have "hd h \<noteq> CHR ''*''" using False by (cases h) auto
  then have dw: "dropWhile (\<lambda>c. c = CHR ''*'') h = h" using False by (cases h) auto
  have sc: "scanChunk h = (False, h, [])"
    using False \<open>hd h \<noteq> CHR ''*''\<close> scanLoop_no_star [OF nostar]
    by (simp add: scanChunk_def Let_def dw)
  have mc: "matchChunk h h False = ([], True, None)"
    using matchChunk_literal [OF lit, of "[]"] by simp
  have "Match [] [] = (True, None)" by (subst Match.simps) simp
  then show ?thesis using False sc mc by (subst Match.simps) simp
qed

lemma Abs_IsAbs: "IsAbs p \<Longrightarrow> Abs wd p = Some (Clean p)"
  by (simp add: Abs_def)

lemma absOr_IsAbs: "IsAbs p \<Longrightarrow> absOr wd p = Clean p"
  by (simp add: absOr_def Abs_IsAbs)

lemma fileHidden_IsAbs:
  "IsAbs p \<Longrightarrow> fileHidden wd p hide = fileHidden None p hide"
  unfolding fileHidden_ex by (simp add: absOr_IsAbs)

text \<open>
  Claim C6.  A pattern without a separator hides a path when it glob-matches one of the
  components of the (absolute) path, or the whole path; a pattern with a separator hides
  it when the path starts with the pattern and a separator follows, or when it
  glob-matches the whole path, which a pattern without operators does exactly when the
  path is the pattern.  So \<open>bar\<close> hides \<open>/x/bar/y\<close> and \<open>/bar\<close> but not \<open>/barstool\<close>, and
  \<open>/foo\<close> hides \<open>/foo\<close> and \<open>/foo/bar\<close> but not \<open>/foobar\<close>.
\<close>

theorem fileHidden_rules:
  "(\<not> Contains h separator \<longrightarrow>
      fileHidden wd p [h]
        = (list_ex (\<lambda>c. fst (Match h c)) (Split (absOr wd p) Separator)
           \<or> fst (Match h (absOr wd p))))
   \<and> (Contains h separator \<longrightarrow>
      fileHidden wd p [h]
        = ((HasPrefix (absOr wd p) h \<and> HasPrefix (drop (length h) (absOr wd p)) separator)
           \<or> fst (Match h (absOr wd p))))
   \<and> (Contains h separator \<and> literal h \<and> absOr wd p = h \<longrightarrow> fileHidden wd p [h])
   \<and> fileHidden wd ''/x/bar/y'' [''bar'']
   \<and> fileHidden wd ''/bar'' [''bar'']
   \<and> \<not> fileHidden wd ''/barstool'' [''bar'']
   \<and> fileHidden wd ''/foo'' [''/foo'']
   \<and> fileHidden wd ''/foo/bar'' [''/foo'']
   \<and> \<not> fileHidden wd ''/foobar'' [''/foo'']"
proof -
  have a: "\<not> Contains h separator \<longrightarrow>
      fileHidden wd p [h]
        = (list_ex (\<lambda>c. fst (Match h c)) (Split (absOr wd p) Separator)
           \<or> fst (Match h (absOr wd p)))"
    unfolding fileHidden_ex by (simp add: hiddenBy_def)
  have b: "Contains h separator \<longrightarrow>
      fileHidden wd p [h]
        = ((HasPrefix (absOr wd p) h \<and> HasPrefix (drop (length h) (absOr wd p)) separator)
           \<or> fst (Match h (absOr wd p)))"
    unfolding fileHidden_ex by (simp add: hiddenBy_def)
  have c: "Contains h separator \<and> literal h \<and> absOr wd p = h \<longrightarrow> fileHidden wd p [h]"
    unfolding fileHidden_ex using Match_literal [of h] by (auto simp add: hiddenBy_def)
  have e1: "fileHidden wd ''/x/bar/y'' [''bar'']"
    using fileHidden_IsAbs [of "''/x/bar/y''" wd "[''bar'']"] by code_simp
  have e2: "fileHidden wd ''/bar'' [''bar'']"
    using fileHidden_IsAbs [of "''/bar''" wd "[''bar'']"] by code_simp
  have e3: "\<not> fileHidden wd ''/barstool'' [''bar'']"
    using fileHidden_IsAbs [of "''/barstool''" wd "[''bar'']"] by code_simp
  have e4: "fileHidden wd ''/foo'' [''/foo'']"
    using fileHidden_IsAbs [of "''/foo''" wd "[''/foo'']"] by code_simp
  have e5: "fileHidden wd ''/foo/bar'' [''/foo'']"
    using fileHidden_IsAbs [of "''/foo/bar''" wd "[''/foo'']"] by code_simp
  have e6: "\<not> fileHidden wd ''/foobar'' [''/foo'']"
    using fileHidden_IsAbs [of "''/foobar''" wd "[''/foo'']"] by code_simp
  from a b c e1 e2 e3 e4 e5 e6 show ?thesis by blast
qed

theorem fileHidden_rules_witness:
  "\<not> Contains ''*.bak'' separator
   \<and> fileHidden (Some ''/srv/app'') ''/site/old/data.bak'' [''*.bak'']
       = (list_ex (\<lambda>c. fst (Match ''*.bak'' c))
            (Split (absOr (Some ''/srv/app'') ''/site/old/data.bak'') Separator)
          \<or> fst (Match ''*.bak'' (absOr (Some ''/srv/app'') ''/site/old/data.bak'')))
   \<and> fileHidden (Some ''/srv/app'') ''/site/old/data.bak'' [''*.bak'']
   \<and> Contains ''/site/private'' separator
   \<and> fileHidden (Some ''/srv/app'') ''/site/private/key.pem'' [''/site/private'']
       = ((HasPrefix (absOr (Some ''/srv/app'') ''/site/private/key.pem'') ''/site/private''
           \<and> HasPrefix (drop (length ''/site/private'')
                 (absOr (Some ''/srv/app'') ''/site/private/key.pem'')) separator)
          \<or> fst (Match ''/site/private'' (absOr (Some ''/srv/app'') ''/site/private/key.pem'')))
   \<and> fileHidden (Some ''/srv/app'') ''/site/private/key.pem'' [''/site/private'']
   \<and> literal ''/site/private''
   \<and> absOr (Some ''/srv/app'') ''/site/private'' = ''/site/private''
   \<and> fileHidden (Some ''/srv/app'') ''/site/private'' [''/site/private'']
   \<and> \<not> fileHidden (Some ''/srv/app'') ''/site/privateer'' [''/site/private'']"
proof -
  note t = fileHidden_rules [of "''*.bak''" "Some ''/srv/app''" "''/site/old/data.bak''"]
  note u = fileHidden_rules [of "''/site/private''" "Some ''/srv/app''" "''/site/private/key.pem''"]
  note v = fileHidden_rules [of "''/site/private''" "Some ''/srv/app''" "''/site/private''"]
  have a: "\<not> Contains ''*.bak'' separator" by code_simp
  have b: "fileHidden (Some ''/srv/app'') ''/site/old/data.bak'' [''*.bak'']
       = (list_ex (\<lambda>c. fst (Match ''*.bak'' c))
            (Split (absOr (Some ''/srv/app'') ''/site/old/data.bak'') Separator)
          \<or> fst (Match ''*.bak'' (absOr (Some ''/srv/app'') ''/site/old/data.bak'')))"
    using t a by blast
  have c: "fileHidden (Some ''/srv/app'') ''/site/old/data.bak'' [''*.bak'']" by code_simp
  have d: "Contains ''/site/private'' separator" by code_simp
  have e: "fileHidden (Some ''/srv/app'') ''/site/private/key.pem'' [''/site/private'']
       = ((HasPrefix (absOr (Some ''/srv/app'') ''/site/private/key.pem'') ''/site/private''
           \<and> HasPrefix (drop (length ''/site/private'')
                 (absOr (Some ''/srv/app'') ''/site/private/key.pem'')) separator)
          \<or> fst (Match ''/site/private'' (absOr (Some ''/srv/app'') ''/site/private/key.pem'')))"
    using u d by blast
  have f: "fileHidden (Some ''/srv/app'') ''/site/private/key.pem'' [''/site/private'']"
    by code_simp
  have g: "literal ''/site/private''" by (simp add: literal_def)
  have h: "absOr (Some ''/srv/app'') ''/site/private'' = ''/site/private''" by code_simp
  have i: "fileHidden (Some ''/srv/app'') ''/site/private'' [''/site/private'']"
    using v d g h by blast
  have j: "\<not> fileHidden (Some ''/srv/app'') ''/site/privateer'' [''/site/private'']"
    by code_simp
  from a b c d e f g h i j show ?thesis by blast
qed

lemma Join_two: "d \<noteq> [] \<Longrightarrow> Join [d, h] = Clean (d @ separator @ h)"
  by (simp add: Join_def)

text \<open>
  Claim C10.  \<open>transformHidePaths\<close> replaces each pattern that holds a separator by its
  absolute path, taken from the working directory of the process when the pattern is
  relative, and leaves it as it is when \<open>filepath.Abs\<close> fails; it does not read the
  configured root.  \<open>fileHidden\<close> makes the candidate file name absolute in the same way
  before it compares.
\<close>

theorem transformHidePaths_working_directory:
  "transformHidePaths env spec
     = map (\<lambda>h0. if Contains (ReplaceAll env h0 []) separator
                  then absOr (Getwd env) (ReplaceAll env h0 [])
                  else ReplaceAll env h0 [])
           (Hide spec)
   \<and> transformHidePaths env (spec\<lparr>Root := r\<rparr>) = transformHidePaths env spec
   \<and> (\<not> IsAbs h \<and> d \<noteq> [] \<longrightarrow> absOr (Some d) h = Clean (d @ separator @ h))
   \<and> (IsAbs h \<longrightarrow> absOr wd h = Clean h)
   \<and> (\<not> IsAbs h \<longrightarrow> absOr None h = h)
   \<and> fileHidden wd filename hide
       = (hide \<noteq> [] \<and> fileHiddenLoop (absOr wd filename) [] hide)"
proof -
  have a: "transformHidePaths env spec
     = map (\<lambda>h0. if Contains (ReplaceAll env h0 []) separator
                  then absOr (Getwd env) (ReplaceAll env h0 [])
                  else ReplaceAll env h0 [])
           (Hide spec)"
    by (simp add: transformHidePaths_def absOr_def Let_def)
  have b: "transformHidePaths env (spec\<lparr>Root := r\<rparr>) = transformHidePaths env spec"
    by (simp add: transformHidePaths_def)
  have c: "\<not> IsAbs h \<and> d \<noteq> [] \<longrightarrow> absOr (Some d) h = Clean (d @ separator @ h)"
    by (simp add: absOr_def Abs_def Join_two)
  have d: "IsAbs h \<longrightarrow> absOr wd h = Clean h"
    by (simp add: absOr_IsAbs)
  have e: "\<not> IsAbs h \<longrightarrow> absOr None h = h"
    by (simp add: absOr_def Abs_def)
  have f: "fileHidden wd filename hide
       = (hide \<noteq> [] \<and> fileHiddenLoop (absOr wd filename) [] hide)"
    by (simp add: fileHidden_def absOr_def)
  from a b c d e f show ?thesis by blast
qed

theorem transformHidePaths_working_directory_witness:
  "transformHidePaths (siteEnv ''linux'') (siteSpec [''./secret'', ''*.bak''])
     = [''/srv/app/secret'', ''*.bak'']
   \<and> Root (siteSpec [''./secret'', ''*.bak'']) = ''/site''
   \<and> Getwd (siteEnv ''linux'') = Some ''/srv/app''
   \<and> \<not> IsAbs ''./secret''
   \<and> absOr (Some ''/srv/app'') ''./secret'' = Clean (''/srv/app'' @ separator @ ''./secret'')
   \<and> absOr None ''./secret'' = ''./secret''
   \<and> \<not> fileHidden (Some ''/srv/app'') (SanitizedPathJoin ''/site'' ''/secret'')
         (transformHidePaths (siteEnv ''linux'') (siteSpec [''./secret'', ''*.bak'']))
   \<and> fileHidden (Some ''/srv/app'') ''/srv/app/secret''
         (transformHidePaths (siteEnv ''linux'') (siteSpec [''./secret'', ''*.bak'']))
   \<and> fileHidden (Some ''/srv/app'') ''secret''
         (transformHidePaths (siteEnv ''linux'') (siteSpec [''./secret'', ''*.bak'']))"
proof -
  note t = transformHidePaths_working_directory [of "siteEnv ''linux''"
      "siteSpec [''./secret'', ''*.bak'']" "''/site''" "''./secret''" "''/srv/app''" None "[]" "[]"]
  have n: "\<not> IsAbs ''./secret''" by code_simp
  have a: "transformHidePaths (siteEnv ''linux'') (siteSpec [''./secret'', ''*.bak''])
     = [''/srv/app/secret'', ''*.bak'']" by code_simp
  have b: "Root (siteSpec [''./secret'', ''*.bak'']) = ''/site''" by code_simp
  have c: "Getwd (siteEnv ''linux'') = Some ''/srv/app''" by code_simp
  have d: "absOr (Some ''/srv/app'') ''./secret'' = Clean (''/srv/app'' @ separator @ ''./secret'')"
    using t n by simp
  have e: "absOr None ''./secret'' = ''./secret''"
    using t n by simp
  have f: "\<not> fileHidden (Some ''/srv/app'') (SanitizedPathJoin ''/site'' ''/secret'')
         (transformHidePaths (siteEnv ''linux'') (siteSpec [''./secret'', ''*.bak'']))"
    by code_simp
  have g: "fileHidden (Some ''/srv/app'') ''/srv/app/secret''
         (transformHidePaths (siteEnv ''linux'') (siteSpec [''./secret'', ''*.bak'']))"
    by code_simp
  have h: "fileHidden (Some ''/srv/app'') ''secret''
         (transformHidePaths (siteEnv ''linux'') (siteSpec [''./secret'', ''*.bak'']))"
    by code_simp
  from a b c n d e f g h show ?thesis by blast
qed

section \<open>Properties of the handler\<close>

lemma result_names_distinct:
  "distinct [resultIllegalADSPath, resultIllegalShortName, resultNotFound, resultErrPermission,
     resultErrHandleFile, resultMethodNotAllowed, []]"
  by (simp add: resultIllegalADSPath_def resultIllegalShortName_def resultNotFound_def
      resultErrPermission_def resultErrHandleFile_def resultMethodNotAllowed_def)

lemma openFile_eq: "openFile spec filename = fsOpen (fileSystem spec) filename"
  by (cases "fsOpen (fileSystem spec) filename") (simp_all add: openFile_def)

lemma serveFile_results:
  "fst (serveFile env spec r info filename ctx)
     \<in> {resultNotFound, resultErrPermission, resultErrHandleFile, resultMethodNotAllowed, []}"
  by (cases "fsOpen (fileSystem spec) filename") (auto simp add: serveFile_def openFile_eq Let_def)

text \<open>
  The two stages of the handler classify errors with different tests.  An error that
  wraps a not-found error is not found for \<open>errors.Is\<close>, which the stat stage uses, but
  not for \<open>os.IsNotExist\<close>, which the open stage uses: when the opening of the file
  fails with such an error, the outcome is \<open>errHandleFile\<close> with status 500.
\<close>

lemma serveFile_wrapped_not_exist:
  assumes "fsOpen (fileSystem spec) filename = Inl (Wrapped msg err)" "errKind err = NotExist"
  shows "fst (serveFile env spec r info filename ctx) = resultErrHandleFile"
    and "statusCode (snd (serveFile env spec r info filename ctx)) = Some 500"
  using assms
  by (simp_all add: serveFile_def openFile_eq Let_def mapDirOpenError_def errorsIs_def
      ErrNotExist_def SetStatusCode_def StatusInternalServerError_def)

lemma resolveFile_results:
  "resolveFile env spec p ctx = Inl out
     \<Longrightarrow> fst out \<in> {resultNotFound, resultErrPermission, resultErrHandleFile}"
  by (cases "fsStat (fileSystem spec) (SanitizedPathJoin (ReplaceAll env (Root spec) ''.'') p)")
     (auto simp add: resolveFile_def Let_def split: if_splits)

lemma handle_results_past_guard:
  assumes "requestGuard (GOOS env) (Path r) = None"
  shows "fst (handle env spec r ctx)
     \<in> {resultNotFound, resultErrPermission, resultErrHandleFile, resultMethodNotAllowed, []}"
proof (cases "resolveFile env spec (Path r) ctx")
  case (Inl out)
  then have "handle env spec r ctx = out" using assms by (simp add: handle_def)
  then show ?thesis using resolveFile_results [OF Inl] by auto
next
  case (Inr x)
  obtain info filename ctx' where x: "x = (info, filename, ctx')" by (cases x) auto
  then have "handle env spec r ctx = serveFile env spec r info filename ctx'"
    using assms Inr by (simp add: handle_def)
  then show ?thesis using serveFile_results [of env spec r info filename ctx'] by simp
qed

lemma handle_not_short_name_past_guard:
  assumes "requestGuard (GOOS env) (Path r) = None"
  shows "fst (handle env spec r ctx) \<noteq> resultIllegalShortName"
  using handle_results_past_guard [OF assms, of spec ctx] result_names_distinct by auto

text \<open>
  Claim C2, as amended.  Where \<open>GOOS\<close> is \<open>windows\<close>, the handler rejects a request as
  an illegal short name exactly when its path holds no colon and, with the trailing dots
  and spaces trimmed, the base name of the path has at most twelve bytes and the trimmed
  path, in any of its components, holds a tilde.  On every other platform the guard
  rejects nothing.  A rejection sets status 400 and comes before any file system call.
\<close>

theorem requestGuard_short_name:
  "(GOOS env = ''windows'' \<longrightarrow>
      (fst (handle env spec r ctx) = resultIllegalShortName)
        = (\<not> Contains (Path r) '':''
           \<and> length (Base (TrimRight (Path r) ''. '')) \<le> 12
           \<and> Contains (TrimRight (Path r) ''. '') ''~''))
   \<and> (GOOS env \<noteq> ''windows'' \<longrightarrow>
      requestGuard (GOOS env) (Path r) = None
      \<and> fst (handle env spec r ctx) \<noteq> resultIllegalShortName
      \<and> fst (handle env spec r ctx) \<noteq> resultIllegalADSPath)
   \<and> (fst (handle env spec r ctx) = resultIllegalShortName \<longrightarrow>
      statusCode (snd (handle env spec r ctx)) = Some 400
      \<and> fsLog (snd (handle env spec r ctx)) = fsLog ctx)"
proof -
  let ?cond = "\<not> Contains (Path r) '':''
           \<and> length (Base (TrimRight (Path r) ''. '')) \<le> 12
           \<and> Contains (TrimRight (Path r) ''. '') ''~''"
  have short: "handle env spec r ctx
      = (resultIllegalShortName, SetStatusCode StatusBadRequest (AddTag ''illegal short name'' ctx))"
    if "GOOS env = ''windows''" ?cond
    using that by (simp add: handle_def requestGuard_def Let_def)
  have ads: "fst (handle env spec r ctx) = resultIllegalADSPath"
    if "GOOS env = ''windows''" "Contains (Path r) '':''"
    using that by (simp add: handle_def requestGuard_def Let_def)
  have none: "requestGuard (GOOS env) (Path r) = None"
    if "GOOS env = ''windows'' \<longrightarrow> \<not> Contains (Path r) '':'' \<and> \<not> ?cond"
    using that by (auto simp add: requestGuard_def Let_def)
  have a: "GOOS env = ''windows'' \<longrightarrow>
      (fst (handle env spec r ctx) = resultIllegalShortName) = ?cond"
  proof
    assume w: "GOOS env = ''windows''"
    show "(fst (handle env spec r ctx) = resultIllegalShortName) = ?cond"
    proof (cases ?cond)
      case True
      then show ?thesis using short [OF w] by simp
    next
      case False
      show ?thesis
      proof (cases "Contains (Path r) '':''")
        case True
        then show ?thesis using ads [OF w] result_names_distinct by auto
      next
        case nc: False
        then have "requestGuard (GOOS env) (Path r) = None" using none False by blast
        then show ?thesis using handle_not_short_name_past_guard False by blast
      qed
    qed
  qed
  have b: "GOOS env \<noteq> ''windows'' \<longrightarrow>
      requestGuard (GOOS env) (Path r) = None
      \<and> fst (handle env spec r ctx) \<noteq> resultIllegalShortName
      \<and> fst (handle env spec r ctx) \<noteq> resultIllegalADSPath"
  proof
    assume nw: "GOOS env \<noteq> ''windows''"
    then have g: "requestGuard (GOOS env) (Path r) = None" by (simp add: requestGuard_def)
    then show "requestGuard (GOOS env) (Path r) = None
      \<and> fst (handle env spec r ctx) \<noteq> resultIllegalShortName
      \<and> fst (handle env spec r ctx) \<noteq> resultIllegalADSPath"
      using handle_results_past_guard [OF g, of spec ctx] result_names_distinct by auto
  qed
  have c: "fst (handle env spec r ctx) = resultIllegalShortName \<longrightarrow>
      statusCode (snd (handle env spec r ctx)) = Some 400
      \<and> fsLog (snd (handle env spec r ctx)) = fsLog ctx"
  proof
    assume s: "fst (handle env spec r ctx) = resultIllegalShortName"
    have w: "GOOS env = ''windows''" using s b by blast
    then have ?cond using s a by blast
    then show "statusCode (snd (handle env spec r ctx)) = Some 400
      \<and> fsLog (snd (handle env spec r ctx)) = fsLog ctx"
      using short [OF w] by (simp add: SetStatusCode_def AddTag_def StatusBadRequest_def)
  qed
  from a b c show ?thesis by blast
qed

theorem requestGuard_short_name_witness:
  "GOOS (siteEnv ''windows'') = ''windows''
   \<and> fst (handle (siteEnv ''windows'') (siteSpec [])
         \<lparr>Path = ''/docs/SECRET~1.TXT. .'', Method = ''GET''\<rparr> emptyContext) = resultIllegalShortName
   \<and> statusCode (snd (handle (siteEnv ''windows'') (siteSpec [])
         \<lparr>Path = ''/docs/SECRET~1.TXT. .'', Method = ''GET''\<rparr> emptyContext)) = Some 400
   \<and> fsLog (snd (handle (siteEnv ''windows'') (siteSpec [])
         \<lparr>Path = ''/docs/SECRET~1.TXT. .'', Method = ''GET''\<rparr> emptyContext)) = fsLog emptyContext
   \<and> GOOS (siteEnv ''linux'') \<noteq> ''windows''
   \<and> fst (handle (siteEnv ''linux'') (siteSpec [])
         \<lparr>Path = ''/docs/SECRET~1.TXT. .'', Method = ''GET''\<rparr> emptyContext) \<noteq> resultIllegalShortName"
proof -
  let ?r = "\<lparr>Path = ''/docs/SECRET~1.TXT. .'', Method = ''GET''\<rparr>"
  note w = requestGuard_short_name [of "siteEnv ''windows''" "siteSpec []" ?r emptyContext]
  note l = requestGuard_short_name [of "siteEnv ''linux''" "siteSpec []" ?r emptyContext]
  have gw: "GOOS (siteEnv ''windows'') = ''windows''" by code_simp
  have gl: "GOOS (siteEnv ''linux'') \<noteq> ''windows''" by code_simp
  have cond: "\<not> Contains (Path ?r) '':''
           \<and> length (Base (TrimRight (Path ?r) ''. '')) \<le> 12
           \<and> Contains (TrimRight (Path ?r) ''. '') ''~''" by code_simp
  have a: "fst (handle (siteEnv ''windows'') (siteSpec []) ?r emptyContext) = resultIllegalShortName"
    using w gw cond by blast
  have b: "statusCode (snd (handle (siteEnv ''windows'') (siteSpec []) ?r emptyContext)) = Some 400
     \<and> fsLog (snd (handle (siteEnv ''windows'') (siteSpec []) ?r emptyContext)) = fsLog emptyContext"
    using w a by blast
  have c: "fst (handle (siteEnv ''linux'') (siteSpec []) ?r emptyContext) \<noteq> resultIllegalShortName"
    using l gl by blast
  from gw a b gl c show ?thesis by blast
qed

text \<open>
  The tilde need not stand in the last component: \<open>/a~b/c\<close> is rejected though its base
  name \<open>c\<close> has none.  And a path with a colon is rejected as an alternate data stream
  path before the short-name test is made.
\<close>

theorem requestGuard_tilde_elsewhere:
  "fst (handle (siteEnv ''windows'') (siteSpec [])
         \<lparr>Path = ''/a~b/c'', Method = ''GET''\<rparr> emptyContext) = resultIllegalShortName
   \<and> Base (TrimRight ''/a~b/c'' ''. '') = ''c''
   \<and> \<not> Contains (Base (TrimRight ''/a~b/c'' ''. '')) ''~''
   \<and> length (Base (TrimRight ''/x~1:y'' ''. '')) \<le> 12
   \<and> Contains (Base (TrimRight ''/x~1:y'' ''. '')) ''~''
   \<and> fst (handle (siteEnv ''windows'') (siteSpec [])
         \<lparr>Path = ''/x~1:y'', Method = ''GET''\<rparr> emptyContext) = resultIllegalADSPath
   \<and> resultIllegalADSPath \<noteq> resultIllegalShortName"
  by code_simp

lemma indexLoop_context:
  "\<exists>log. snd (indexLoop env spec hide filename names ctx) = ctx\<lparr>fsLog := log\<rparr>"
proof (induction names arbitrary: ctx)
  case Nil
  show ?case by (rule exI [of _ "fsLog ctx"]) simp
next
  case (Cons n names)
  let ?path = "SanitizedPathJoin filename (ReplaceAll env n [])"
  let ?ctx' = "logEvent (StatCall ?path) ctx"
  show ?case
  proof (cases "fileHidden (Getwd env) ?path hide")
    case True
    then have "snd (indexLoop env spec hide filename (n # names) ctx)
        = snd (indexLoop env spec hide filename names ctx)"
      by (simp add: Let_def)
    then show ?thesis using Cons.IH [of ctx] by simp
  next
    case False
    show ?thesis
    proof (cases "fsStat (fileSystem spec) ?path")
      case (Inl e)
      then have e: "snd (indexLoop env spec hide filename (n # names) ctx)
          = snd (indexLoop env spec hide filename names ?ctx')"
        using False by (simp add: Let_def)
      obtain log where "snd (indexLoop env spec hide filename names ?ctx') = ?ctx'\<lparr>fsLog := log\<rparr>"
        using Cons.IH [of ?ctx'] by blast
      then have "snd (indexLoop env spec hide filename (n # names) ctx) = ctx\<lparr>fsLog := log\<rparr>"
        unfolding e by (simp add: logEvent_def)
      then show ?thesis by (rule exI)
    next
      case (Inr fi)
      then have "snd (indexLoop env spec hide filename (n # names) ctx) = ?ctx'"
        using False by (simp add: Let_def)
      then have "snd (indexLoop env spec hide filename (n # names) ctx)
          = ctx\<lparr>fsLog := fsLog ctx @ [StatCall ?path]\<rparr>"
        by (simp add: logEvent_def)
      then show ?thesis by (rule exI)
    qed
  qed
qed

lemma resolveFile_Inr:
  assumes "resolveFile env spec p ctx = Inr (info, filename, ctx')"
  shows "\<exists>info0. fsStat (fileSystem spec) (SanitizedPathJoin (ReplaceAll env (Root spec) ''.'') p) = Inr info0
     \<and> ctx' = snd (if IsDir info0 \<and> length (IndexNames spec) > 0
                then indexLoop env spec (transformHidePaths env spec)
                       (SanitizedPathJoin (ReplaceAll env (Root spec) ''.'') p) (IndexNames spec)
                       (logEvent (StatCall (SanitizedPathJoin (ReplaceAll env (Root spec) ''.'') p)) ctx)
                else (None, logEvent (StatCall (SanitizedPathJoin (ReplaceAll env (Root spec) ''.'') p)) ctx))"
proof (cases "fsStat (fileSystem spec) (SanitizedPathJoin (ReplaceAll env (Root spec) ''.'') p)")
  case (Inl e)
  have "\<exists>out. resolveFile env spec p ctx = Inl out"
    using Inl by (simp add: resolveFile_def Let_def)
  then show ?thesis using assms by auto
next
  case (Inr info0)
  let ?f = "SanitizedPathJoin (ReplaceAll env (Root spec) ''.'') p"
  let ?found = "if IsDir info0 \<and> length (IndexNames spec) > 0
                then indexLoop env spec (transformHidePaths env spec) ?f (IndexNames spec)
                       (logEvent (StatCall ?f) ctx)
                else (None, logEvent (StatCall ?f) ctx)"
  let ?info = "case fst ?found of Some (indexInfo, indexPath) \<Rightarrow> indexInfo | None \<Rightarrow> info0"
  let ?filename = "case fst ?found of Some (indexInfo, indexPath) \<Rightarrow> indexPath | None \<Rightarrow> ?f"
  have "resolveFile env spec p ctx
      = (if IsDir ?info then
           Inl (resultNotFound, SetStatusCode StatusNotFound (AddTag ''not found'' (snd ?found)))
         else if fileHidden (Getwd env) ?filename (transformHidePaths env spec) then
           Inl (resultNotFound, SetStatusCode StatusNotFound (AddTag ''not found'' (snd ?found)))
         else Inr (?info, ?filename, snd ?found))"
    unfolding resolveFile_def Let_def Inr by simp
  then have "ctx' = snd ?found"
    using assms by (simp split: if_splits)
  then show ?thesis using Inr by blast
qed

lemma resolveFile_context:
  assumes "resolveFile env spec p ctx = Inr (info, filename, ctx')"
  shows "\<exists>log. ctx' = ctx\<lparr>fsLog := log\<rparr>"
proof -
  let ?f = "SanitizedPathJoin (ReplaceAll env (Root spec) ''.'') p"
  let ?ctx1 = "logEvent (StatCall ?f) ctx"
  from resolveFile_Inr [OF assms]
  obtain info0 where "fsStat (fileSystem spec) ?f = Inr info0
     \<and> ctx' = snd (if IsDir info0 \<and> length (IndexNames spec) > 0
                then indexLoop env spec (transformHidePaths env spec) ?f (IndexNames spec) ?ctx1
                else (None, ?ctx1))" ..
  then have c: "ctx' = snd (if IsDir info0 \<and> length (IndexNames spec) > 0
                then indexLoop env spec (transformHidePaths env spec) ?f (IndexNames spec) ?ctx1
                else (None, ?ctx1))" by (rule conjunct2)
  show ?thesis
  proof (cases "IsDir info0 \<and> length (IndexNames spec) > 0")
    case True
    obtain log where "snd (indexLoop env spec (transformHidePaths env spec) ?f (IndexNames spec) ?ctx1)
        = ?ctx1\<lparr>fsLog := log\<rparr>"
      using indexLoop_context by blast
    then have "ctx' = ctx\<lparr>fsLog := log\<rparr>" using c True by (simp add: logEvent_def)
    then show ?thesis by (rule exI)
  next
    case False
    then have "ctx' = ctx\<lparr>fsLog := fsLog ctx @ [StatCall ?f]\<rparr>"
      using c by (simp add: logEvent_def)
    then show ?thesis by (rule exI)
  qed
qed

lemma serveFile_open_failed:
  "fsOpen (fileSystem spec) filename = Inl e
     \<Longrightarrow> serveFile env spec r info filename ctx = serveFile env spec r' info filename ctx
         \<and> fst (serveFile env spec r info filename ctx) \<noteq> []"
  by (simp add: serveFile_def openFile_eq Let_def resultNotFound_def resultErrPermission_def
      resultErrHandleFile_def)

lemma serveFile_method_not_allowed:
  "fsOpen (fileSystem spec) filename = Inr file \<Longrightarrow> Method r \<noteq> MethodGet \<Longrightarrow> Method r \<noteq> MethodHead
     \<Longrightarrow> serveFile env spec r info filename ctx
         = (resultMethodNotAllowed,
            logEvent (CloseCall filename)
              (SetStatusCode StatusMethodNotAllowed
                 (headerAdd ''Allow'' ''GET, HEAD'' (logEvent (OpenCall filename) ctx))))"
  by (simp add: serveFile_def openFile_eq Let_def)

lemma serveFile_get:
  "fsOpen (fileSystem spec) filename = Inr file \<Longrightarrow> Method r = MethodGet
     \<Longrightarrow> fst (serveFile env spec r info filename ctx) = []"
  by (simp add: serveFile_def openFile_eq Let_def)

text \<open>
  Claim C3, as amended.  A request whose method is neither \<open>GET\<close> nor \<open>HEAD\<close> is never
  served.  The method is tested after the file has been opened: when the same request
  with \<open>GET\<close> would be served, the outcome is \<open>methodNotAllowed\<close> with status 405 and
  \<open>GET, HEAD\<close> added to the \<open>Allow\<close> header, and the log of file system calls ends with
  the opening and the closing of the file; otherwise the outcome is the one that the
  request with \<open>GET\<close> has, reached before the method is looked at.
\<close>

theorem handle_method_not_allowed:
  "Method r \<noteq> MethodGet \<and> Method r \<noteq> MethodHead \<longrightarrow>
     fst (handle env spec r ctx) \<noteq> []
     \<and> (fst (handle env spec (r\<lparr>Method := MethodGet\<rparr>) ctx) \<noteq> []
          \<longrightarrow> handle env spec r ctx = handle env spec (r\<lparr>Method := MethodGet\<rparr>) ctx)
     \<and> (fst (handle env spec (r\<lparr>Method := MethodGet\<rparr>) ctx) = []
          \<longrightarrow> fst (handle env spec r ctx) = resultMethodNotAllowed
              \<and> statusCode (snd (handle env spec r ctx)) = Some 405
              \<and> header (snd (handle env spec r ctx)) ''Allow'' = header ctx ''Allow'' @ [''GET, HEAD'']
              \<and> (\<exists>log filename. fsLog (snd (handle env spec r ctx))
                    = log @ [OpenCall filename, CloseCall filename]))
     \<and> (fst (handle env spec r ctx) = resultMethodNotAllowed
          \<longrightarrow> fst (handle env spec (r\<lparr>Method := MethodGet\<rparr>) ctx) = [])"
proof
  assume m: "Method r \<noteq> MethodGet \<and> Method r \<noteq> MethodHead"
  let ?g = "r\<lparr>Method := MethodGet\<rparr>"
  let ?P = "\<lambda>h hg. fst h \<noteq> []
     \<and> (fst hg \<noteq> [] \<longrightarrow> h = hg)
     \<and> (fst hg = []
          \<longrightarrow> fst h = resultMethodNotAllowed
              \<and> statusCode (snd h) = Some 405
              \<and> header (snd h) ''Allow'' = header ctx ''Allow'' @ [''GET, HEAD'']
              \<and> (\<exists>log filename. fsLog (snd h) = log @ [OpenCall filename, CloseCall filename]))
     \<and> (fst h = resultMethodNotAllowed \<longrightarrow> fst hg = [])"
  have mna: "resultMethodNotAllowed \<noteq> []" by (simp add: resultMethodNotAllowed_def)
  have "?P (handle env spec r ctx) (handle env spec ?g ctx)"
  proof (cases "requestGuard (GOOS env) (Path r)")
    case (Some x)
    obtain tag res where x: "x = (tag, res)" by (cases x) auto
    have eq: "handle env spec r ctx = handle env spec ?g ctx"
      using Some by (simp add: handle_def)
    have "res = resultIllegalADSPath \<or> res = resultIllegalShortName"
      using Some x by (auto simp add: requestGuard_def Let_def split: if_splits)
    moreover have "fst (handle env spec r ctx) = res" using Some x by (simp add: handle_def)
    ultimately have "fst (handle env spec r ctx) \<noteq> [] \<and> fst (handle env spec r ctx) \<noteq> resultMethodNotAllowed"
      using result_names_distinct by auto
    then show ?thesis using eq by simp
  next
    case None
    show ?thesis
    proof (cases "resolveFile env spec (Path r) ctx")
      case (Inl out)
      have eq: "handle env spec r ctx = handle env spec ?g ctx"
        using None Inl by (simp add: handle_def)
      have "handle env spec r ctx = out" using None Inl by (simp add: handle_def)
      then have "fst (handle env spec r ctx) \<noteq> [] \<and> fst (handle env spec r ctx) \<noteq> resultMethodNotAllowed"
        using resolveFile_results [OF Inl] result_names_distinct by auto
      then show ?thesis using eq by simp
    next
      case (Inr x)
      obtain info filename ctx' where x: "x = (info, filename, ctx')" by (cases x) auto
      have h: "handle env spec r ctx = serveFile env spec r info filename ctx'"
        using None Inr x by (simp add: handle_def)
      have hg: "handle env spec ?g ctx = serveFile env spec ?g info filename ctx'"
        using None Inr x by (simp add: handle_def)
      obtain log0 where ctx': "ctx' = ctx\<lparr>fsLog := log0\<rparr>"
        using resolveFile_context [OF Inr [unfolded x]] by blast
      show ?thesis
      proof (cases "fsOpen (fileSystem spec) filename")
        case (Inl e)
        have eq: "handle env spec r ctx = handle env spec ?g ctx"
          unfolding h hg using serveFile_open_failed [OF Inl, of env r info ctx' ?g] by blast
        have ne: "fst (handle env spec r ctx) \<noteq> []"
          unfolding h using serveFile_open_failed [OF Inl, of env r info ctx' ?g] by blast
        have nm: "fst (handle env spec r ctx) \<noteq> resultMethodNotAllowed"
          unfolding h using Inl
          by (simp add: serveFile_def openFile_eq Let_def resultNotFound_def resultErrPermission_def
              resultErrHandleFile_def resultMethodNotAllowed_def)
        show ?thesis using ne nm unfolding eq [symmetric] by simp
      next
        case (Inr content)
        have s: "serveFile env spec r info filename ctx'
            = (resultMethodNotAllowed,
               logEvent (CloseCall filename)
                 (SetStatusCode StatusMethodNotAllowed
                    (headerAdd ''Allow'' ''GET, HEAD'' (logEvent (OpenCall filename) ctx'))))"
          using serveFile_method_not_allowed [OF Inr] m by blast
        have g: "fst (serveFile env spec ?g info filename ctx') = []"
          using serveFile_get [OF Inr, of ?g] by simp
        have "fsLog (snd (serveFile env spec r info filename ctx'))
            = log0 @ [OpenCall filename, CloseCall filename]"
          unfolding s by (simp add: ctx' logEvent_def SetStatusCode_def headerAdd_def)
        then have ex: "\<exists>log f. fsLog (snd (serveFile env spec r info filename ctx'))
            = log @ [OpenCall f, CloseCall f]" by blast
        have st: "statusCode (snd (serveFile env spec r info filename ctx')) = Some 405"
          unfolding s by (simp add: logEvent_def SetStatusCode_def StatusMethodNotAllowed_def)
        have hd: "header (snd (serveFile env spec r info filename ctx')) ''Allow''
            = header ctx ''Allow'' @ [''GET, HEAD'']"
          unfolding s by (simp add: ctx' logEvent_def SetStatusCode_def headerAdd_def)
        have f: "fst (serveFile env spec r info filename ctx') = resultMethodNotAllowed"
          unfolding s by simp
        show ?thesis unfolding h hg using f g st hd ex mna by auto
      qed
    qed
  qed
  then show "fst (handle env spec r ctx) \<noteq> []
     \<and> (fst (handle env spec ?g ctx) \<noteq> [] \<longrightarrow> handle env spec r ctx = handle env spec ?g ctx)
     \<and> (fst (handle env spec ?g ctx) = []
          \<longrightarrow> fst (handle env spec r ctx) = resultMethodNotAllowed
              \<and> statusCode (snd (handle env spec r ctx)) = Some 405
              \<and> header (snd (handle env spec r ctx)) ''Allow'' = header ctx ''Allow'' @ [''GET, HEAD'']
              \<and> (\<exists>log filename. fsLog (snd (handle env spec r ctx))
                    = log @ [OpenCall filename, CloseCall filename]))
     \<and> (fst (handle env spec r ctx) = resultMethodNotAllowed \<longrightarrow> fst (handle env spec ?g ctx) = [])"
    by blast
qed

lemma walkFindsFile_iff:
  "walkFindsFile fs parts
     = (\<exists>i<length parts. parts ! i \<noteq> [] \<and> statIsFile fs (prefixAt parts i)
          \<and> (\<forall>j<i. parts ! j = [] \<or> statIsDir fs (prefixAt parts j)))"
  by (simp add: walkFindsFile_def list_ex_iff list_all_iff Bex_def Ball_def)

lemma mapDirOpenErrorLoop_walk:
  "fst (mapDirOpenErrorLoop fs e seen parts log)
     = (if (\<exists>i<length parts. parts ! i \<noteq> []
              \<and> statIsFile fs (prefixAt (seen @ parts) (length seen + i))
              \<and> (\<forall>j<i. parts ! j = [] \<or> statIsDir fs (prefixAt (seen @ parts) (length seen + j))))
        then ErrNotExist else e)"
proof (induction parts arbitrary: seen log)
  case Nil
  then show ?case by simp
next
  case (Cons p ps)
  let ?all = "seen @ p # ps"
  let ?F = "\<lambda>i. statIsFile fs (prefixAt ?all (length seen + i))"
  let ?D = "\<lambda>j. statIsDir fs (prefixAt ?all (length seen + j))"
  let ?W = "\<exists>i<length (p # ps). (p # ps) ! i \<noteq> [] \<and> ?F i \<and> (\<forall>j<i. (p # ps) ! j = [] \<or> ?D j)"
  let ?W' = "\<exists>i<length ps. ps ! i \<noteq> [] \<and> statIsFile fs (prefixAt ((seen @ [p]) @ ps) (length (seen @ [p]) + i))
      \<and> (\<forall>j<i. ps ! j = [] \<or> statIsDir fs (prefixAt ((seen @ [p]) @ ps) (length (seen @ [p]) + j)))"
  have p0: "prefixAt ?all (length seen + 0) = JoinStr (seen @ [p]) separator"
    by (simp add: prefixAt_def)
  have shift: "?W = (((p \<noteq> [] \<and> ?F 0) \<or> ((p = [] \<or> ?D 0) \<and> ?W')))"
  proof -
    have "?W = (((p # ps) ! 0 \<noteq> [] \<and> ?F 0 \<and> (\<forall>j<0. (p # ps) ! j = [] \<or> ?D j))
        \<or> (\<exists>i<length ps. (p # ps) ! Suc i \<noteq> [] \<and> ?F (Suc i)
              \<and> (\<forall>j<Suc i. (p # ps) ! j = [] \<or> ?D j)))"
      by (simp only: length_Cons Ex_less_Suc2)
    also have "\<dots> = ((p \<noteq> [] \<and> ?F 0)
        \<or> (\<exists>i<length ps. ps ! i \<noteq> [] \<and> ?F (Suc i)
              \<and> ((p = [] \<or> ?D 0) \<and> (\<forall>j<i. ps ! j = [] \<or> ?D (Suc j)))))"
      by (simp add: All_less_Suc2)
    also have "\<dots> = ((p \<noteq> [] \<and> ?F 0) \<or> ((p = [] \<or> ?D 0) \<and> ?W'))"
      by auto
    finally show ?thesis .
  qed
  show ?case
  proof (cases "p = []")
    case True
    then have "fst (mapDirOpenErrorLoop fs e seen (p # ps) log)
        = fst (mapDirOpenErrorLoop fs e (seen @ [p]) ps log)" by simp
    then show ?thesis unfolding Cons.IH [of "seen @ [p]" log] using shift True by simp
  next
    case False
    let ?name = "JoinStr (seen @ [p]) separator"
    show ?thesis
    proof (cases "fsStat fs ?name")
      case (Inl err)
      then have "\<not> ?F 0" "\<not> ?D 0" unfolding p0 by (simp_all add: statIsFile_def statIsDir_def)
      then have "\<not> ?W" using shift False by blast
      moreover have "fst (mapDirOpenErrorLoop fs e seen (p # ps) log) = e"
        using False Inl by (simp add: Let_def)
      ultimately show ?thesis by (simp only: if_False)
    next
      case (Inr fi)
      show ?thesis
      proof (cases "IsDir fi")
        case True
        then have f: "\<not> ?F 0" and d: "?D 0" unfolding p0 using Inr
          by (simp_all add: statIsFile_def statIsDir_def)
        have "fst (mapDirOpenErrorLoop fs e seen (p # ps) log)
            = fst (mapDirOpenErrorLoop fs e (seen @ [p]) ps (log @ [StatCall ?name]))"
          using False Inr True by (simp add: Let_def)
        moreover have "?W = ?W'" using shift f d by blast
        ultimately show ?thesis unfolding Cons.IH [of "seen @ [p]" "log @ [StatCall ?name]"]
          by (simp only:)
      next
        case nd: False
        then have "?F 0" unfolding p0 using Inr by (simp add: statIsFile_def)
        then have "?W" using shift False by blast
        moreover have "fst (mapDirOpenErrorLoop fs e seen (p # ps) log) = ErrNotExist"
          using False Inr nd by (simp add: Let_def)
        ultimately show ?thesis by (simp only: if_True)
      qed
    qed
  qed
qed

lemma mapDirOpenError_walk:
  assumes "errKind originalErr \<noteq> NotExist" "errKind originalErr \<noteq> Permission"
  shows "fst (mapDirOpenError fs originalErr name log)
     = (if walkFindsFile fs (Split name Separator) then ErrNotExist else originalErr)"
proof -
  have "mapDirOpenError fs originalErr name log
      = mapDirOpenErrorLoop fs originalErr [] (Split name Separator) log"
    using assms by (simp add: mapDirOpenError_def errorsIs_def ErrNotExist_def ErrPermission_def)
  then show ?thesis
    using mapDirOpenErrorLoop_walk [of fs originalErr "[]" "Split name Separator" log]
    by (simp add: walkFindsFile_iff)
qed

lemma mapDirOpenError_pass:
  assumes "errKind originalErr = NotExist \<or> errKind originalErr = Permission"
  shows "mapDirOpenError fs originalErr name log = (originalErr, log)"
  using assms by (auto simp add: mapDirOpenError_def errorsIs_def ErrNotExist_def ErrPermission_def)

lemma resolveFile_stat_failed:
  assumes "fsStat (fileSystem spec) (SanitizedPathJoin (ReplaceAll env (Root spec) ''.'') p) = Inl err0"
  shows "resolveFile env spec p ctx
     = (let filename = SanitizedPathJoin (ReplaceAll env (Root spec) ''.'') p;
            ctx1 = logEvent (StatCall filename) ctx;
            mapped = mapDirOpenError (fileSystem spec) err0 filename (fsLog ctx1);
            err = fst mapped;
            ctx2 = ctx1\<lparr>fsLog := snd mapped\<rparr>
        in if errorsIs err ErrNotExist \<or> errorsIs err ErrInvalid then
             Inl (resultNotFound, SetStatusCode StatusNotFound (AddTag ''not found'' ctx2))
           else if errorsIs err ErrPermission then
             Inl (resultErrPermission, SetStatusCode StatusForbidden (AddTag (Error err) ctx2))
           else
             Inl (resultErrHandleFile,
                  SetStatusCode StatusInternalServerError (AddTag (Error err) ctx2)))"
  unfolding resolveFile_def Let_def assms by simp

lemma handle_stat_failed_other:
  assumes g: "requestGuard (GOOS env) (Path r) = None"
    and st: "fsStat (fileSystem spec) (SanitizedPathJoin (ReplaceAll env (Root spec) ''.'') (Path r)) = Inl err0"
    and k: "errKind err0 = Other"
  shows "walkFindsFile (fileSystem spec)
           (Split (SanitizedPathJoin (ReplaceAll env (Root spec) ''.'') (Path r)) Separator)
         \<Longrightarrow> fst (handle env spec r ctx) = resultNotFound
             \<and> statusCode (snd (handle env spec r ctx)) = Some 404"
    and "\<not> walkFindsFile (fileSystem spec)
           (Split (SanitizedPathJoin (ReplaceAll env (Root spec) ''.'') (Path r)) Separator)
         \<Longrightarrow> fst (handle env spec r ctx) = resultErrHandleFile
             \<and> statusCode (snd (handle env spec r ctx)) = Some 500"
proof -
  let ?f = "SanitizedPathJoin (ReplaceAll env (Root spec) ''.'') (Path r)"
  let ?log = "fsLog (logEvent (StatCall ?f) ctx)"
  have m: "fst (mapDirOpenError (fileSystem spec) err0 ?f ?log)
      = (if walkFindsFile (fileSystem spec) (Split ?f Separator) then ErrNotExist else err0)"
    using mapDirOpenError_walk [of err0 "fileSystem spec" ?f ?log] k by simp
  have h: "handle env spec r ctx = (case resolveFile env spec (Path r) ctx of
             Inl out \<Rightarrow> out
           | Inr (info, filename, ctx') \<Rightarrow> serveFile env spec r info filename ctx')"
    using g by (simp add: handle_def)
  {
    assume w: "walkFindsFile (fileSystem spec) (Split ?f Separator)"
    then have "fst (mapDirOpenError (fileSystem spec) err0 ?f ?log) = ErrNotExist" using m by simp
    then show "fst (handle env spec r ctx) = resultNotFound
             \<and> statusCode (snd (handle env spec r ctx)) = Some 404"
      unfolding h resolveFile_stat_failed [OF st] Let_def
      by (simp add: errorsIs_def SetStatusCode_def StatusNotFound_def)
  }
  {
    assume w: "\<not> walkFindsFile (fileSystem spec) (Split ?f Separator)"
    then have "fst (mapDirOpenError (fileSystem spec) err0 ?f ?log) = err0" using m by simp
    then show "fst (handle env spec r ctx) = resultErrHandleFile
             \<and> statusCode (snd (handle env spec r ctx)) = Some 500"
      unfolding h resolveFile_stat_failed [OF st] Let_def using k
      by (simp add: errorsIs_def SetStatusCode_def StatusInternalServerError_def
          ErrNotExist_def ErrInvalid_def ErrPermission_def)
  }
qed

text \<open>
  Claim C8.  \<open>mapDirOpenError\<close> returns a not-found or permission error as it is, without
  a file system call.  For any other error it walks the growing prefixes of the path: the
  error becomes \<open>fs.ErrNotExist\<close> when the walk reaches a prefix that exists and is not a
  directory (every earlier prefix being a directory), and stays the original error
  otherwise.  In the handler a stat that fails with such another error then gives
  \<open>notFound\<close> with status 404 in the first case and \<open>errHandleFile\<close> with status 500 in
  the second.
\<close>

theorem mapDirOpenError_classification:
  "(errKind originalErr = NotExist \<or> errKind originalErr = Permission \<longrightarrow>
      mapDirOpenError fs originalErr name log = (originalErr, log))
   \<and> (errKind originalErr \<noteq> NotExist \<and> errKind originalErr \<noteq> Permission \<longrightarrow>
      fst (mapDirOpenError fs originalErr name log)
        = (if walkFindsFile fs (Split name Separator) then ErrNotExist else originalErr))
   \<and> (requestGuard (GOOS env) (Path r) = None
       \<and> fsStat (fileSystem spec) (SanitizedPathJoin (ReplaceAll env (Root spec) ''.'') (Path r))
           = Inl err0
       \<and> errKind err0 = Other \<longrightarrow>
      (if walkFindsFile (fileSystem spec)
            (Split (SanitizedPathJoin (ReplaceAll env (Root spec) ''.'') (Path r)) Separator)
       then fst (handle env spec r ctx) = resultNotFound
            \<and> statusCode (snd (handle env spec r ctx)) = Some 404
       else fst (handle env spec r ctx) = resultErrHandleFile
            \<and> statusCode (snd (handle env spec r ctx)) = Some 500))"
proof -
  have a: "errKind originalErr = NotExist \<or> errKind originalErr = Permission \<longrightarrow>
      mapDirOpenError fs originalErr name log = (originalErr, log)"
    using mapDirOpenError_pass by blast
  have b: "errKind originalErr \<noteq> NotExist \<and> errKind originalErr \<noteq> Permission \<longrightarrow>
      fst (mapDirOpenError fs originalErr name log)
        = (if walkFindsFile fs (Split name Separator) then ErrNotExist else originalErr)"
    using mapDirOpenError_walk by blast
  have c: "requestGuard (GOOS env) (Path r) = None
       \<and> fsStat (fileSystem spec) (SanitizedPathJoin (ReplaceAll env (Root spec) ''.'') (Path r))
           = Inl err0
       \<and> errKind err0 = Other \<longrightarrow>
      (if walkFindsFile (fileSystem spec)
            (Split (SanitizedPathJoin (ReplaceAll env (Root spec) ''.'') (Path r)) Separator)
       then fst (handle env spec r ctx) = resultNotFound
            \<and> statusCode (snd (handle env spec r ctx)) = Some 404
       else fst (handle env spec r ctx) = resultErrHandleFile
            \<and> statusCode (snd (handle env spec r ctx)) = Some 500)"
    using handle_stat_failed_other [of env r spec err0 ctx] by presburger
  from a b c show ?thesis by blast
qed

theorem mapDirOpenError_classification_witness:
  "fsStat siteFS ''/site/file.txt/sub'' = Inl (FsError Other ''not a directory'')
   \<and> walkFindsFile siteFS (Split ''/site/file.txt/sub'' Separator)
   \<and> fst (mapDirOpenError siteFS (FsError Other ''not a directory'') ''/site/file.txt/sub'' [])
       = ErrNotExist
   \<and> mapDirOpenError siteFS (FsError Permission ''permission denied'') ''/site/file.txt/sub'' []
       = (FsError Permission ''permission denied'', [])
   \<and> fst (handle (siteEnv ''linux'') (siteSpec [])
           \<lparr>Path = ''/file.txt/sub'', Method = ''GET''\<rparr> emptyContext) = resultNotFound
   \<and> statusCode (snd (handle (siteEnv ''linux'') (siteSpec [])
           \<lparr>Path = ''/file.txt/sub'', Method = ''GET''\<rparr> emptyContext)) = Some 404"
proof -
  let ?r = "\<lparr>Path = ''/file.txt/sub'', Method = ''GET''\<rparr>"
  let ?e = "FsError Other ''not a directory''"
  let ?p = "FsError Permission ''permission denied''"
  note t = mapDirOpenError_classification [of ?e siteFS "''/site/file.txt/sub''" "[]"
      "siteEnv ''linux''" ?r "siteSpec []" ?e emptyContext]
  note u = mapDirOpenError_classification [of ?p siteFS "''/site/file.txt/sub''" "[]"
      "siteEnv ''linux''" ?r "siteSpec []" ?e emptyContext]
  have s: "fsStat siteFS ''/site/file.txt/sub'' = Inl ?e" by code_simp
  have w: "walkFindsFile siteFS (Split ''/site/file.txt/sub'' Separator)" by code_simp
  have k: "errKind ?e \<noteq> NotExist \<and> errKind ?e \<noteq> Permission" by simp
  have a: "fst (mapDirOpenError siteFS ?e ''/site/file.txt/sub'' []) = ErrNotExist"
    using t k w by presburger
  have b: "mapDirOpenError siteFS ?p ''/site/file.txt/sub'' [] = (?p, [])"
    using u by simp
  have g: "requestGuard (GOOS (siteEnv ''linux'')) (Path ?r) = None" by code_simp
  have f: "SanitizedPathJoin (ReplaceAll (siteEnv ''linux'') (Root (siteSpec [])) ''.'') (Path ?r)
      = ''/site/file.txt/sub''" by code_simp
  have fs: "fileSystem (siteSpec []) = siteFS" by (simp add: siteSpec_def)
  have c: "fst (handle (siteEnv ''linux'') (siteSpec []) ?r emptyContext) = resultNotFound
     \<and> statusCode (snd (handle (siteEnv ''linux'') (siteSpec []) ?r emptyContext)) = Some 404"
    using t g s w unfolding f fs by simp
  from s w a b c show ?thesis by blast
qed

theorem handle_method_not_allowed_witness:
  "Method \<lparr>Path = ''/index.html'', Method = ''POST''\<rparr> \<noteq> MethodGet
   \<and> Method \<lparr>Path = ''/index.html'', Method = ''POST''\<rparr> \<noteq> MethodHead
   \<and> fst (handle (siteEnv ''linux'') (siteSpec [])
         (\<lparr>Path = ''/index.html'', Method = ''POST''\<rparr>\<lparr>Method := MethodGet\<rparr>) emptyContext) = []
   \<and> fst (handle (siteEnv ''linux'') (siteSpec [])
         \<lparr>Path = ''/index.html'', Method = ''POST''\<rparr> emptyContext) = resultMethodNotAllowed
   \<and> statusCode (snd (handle (siteEnv ''linux'') (siteSpec [])
         \<lparr>Path = ''/index.html'', Method = ''POST''\<rparr> emptyContext)) = Some 405
   \<and> header (snd (handle (siteEnv ''linux'') (siteSpec [])
         \<lparr>Path = ''/index.html'', Method = ''POST''\<rparr> emptyContext)) ''Allow''
       = header emptyContext ''Allow'' @ [''GET, HEAD'']
   \<and> fst (handle (siteEnv ''linux'') (siteSpec [])
         (\<lparr>Path = ''/nope'', Method = ''POST''\<rparr>\<lparr>Method := MethodGet\<rparr>) emptyContext) \<noteq> []
   \<and> handle (siteEnv ''linux'') (siteSpec []) \<lparr>Path = ''/nope'', Method = ''POST''\<rparr> emptyContext
       = handle (siteEnv ''linux'') (siteSpec [])
           (\<lparr>Path = ''/nope'', Method = ''POST''\<rparr>\<lparr>Method := MethodGet\<rparr>) emptyContext"
proof -
  let ?r = "\<lparr>Path = ''/index.html'', Method = ''POST''\<rparr>"
  let ?n = "\<lparr>Path = ''/nope'', Method = ''POST''\<rparr>"
  note t = handle_method_not_allowed [of ?r "siteEnv ''linux''" "siteSpec []" emptyContext]
  note u = handle_method_not_allowed [of ?n "siteEnv ''linux''" "siteSpec []" emptyContext]
  have m: "Method ?r \<noteq> MethodGet \<and> Method ?r \<noteq> MethodHead" by code_simp
  have m': "Method ?n \<noteq> MethodGet \<and> Method ?n \<noteq> MethodHead" by code_simp
  have g: "fst (handle (siteEnv ''linux'') (siteSpec []) (?r\<lparr>Method := MethodGet\<rparr>) emptyContext) = []"
    by code_simp
  have g': "fst (handle (siteEnv ''linux'') (siteSpec []) (?n\<lparr>Method := MethodGet\<rparr>) emptyContext) \<noteq> []"
    by code_simp
  have a: "fst (handle (siteEnv ''linux'') (siteSpec []) ?r emptyContext) = resultMethodNotAllowed
     \<and> statusCode (snd (handle (siteEnv ''linux'') (siteSpec []) ?r emptyContext)) = Some 405
     \<and> header (snd (handle (siteEnv ''linux'') (siteSpec []) ?r emptyContext)) ''Allow''
         = header emptyContext ''Allow'' @ [''GET, HEAD'']"
    using t m g by blast
  have b: "handle (siteEnv ''linux'') (siteSpec []) ?n emptyContext
       = handle (siteEnv ''linux'') (siteSpec []) (?n\<lparr>Method := MethodGet\<rparr>) emptyContext"
    using u m' g' by blast
  from m g a g' b show ?thesis by blast
qed

text \<open>
  A \<open>POST\<close> for an existing file opens it before it is refused, and a \<open>POST\<close> for a
  missing file is answered with \<open>notFound\<close>.
\<close>

theorem handle_opens_before_method_check:
  "outcome (handle (siteEnv ''linux'') (siteSpec [])
      \<lparr>Path = ''/index.html'', Method = ''POST''\<rparr> emptyContext)
     = (resultMethodNotAllowed, Some 405,
        [StatCall ''/site/index.html'', OpenCall ''/site/index.html'',
         CloseCall ''/site/index.html''])
   \<and> outcome (handle (siteEnv ''linux'') (siteSpec [])
      \<lparr>Path = ''/nope'', Method = ''POST''\<rparr> emptyContext)
     = (resultNotFound, Some 404, [StatCall ''/site/nope''])
   \<and> resultNotFound \<noteq> resultMethodNotAllowed"
  by code_simp

lemma indexLoop_find:
  "fst (indexLoop env spec (transformHidePaths env spec) filename names ctx)
     = (case find (usableIndex env spec filename) names of
          None \<Rightarrow> None
        | Some n \<Rightarrow>
            (case fsStat (fileSystem spec) (indexPathOf env filename n) of
               Inr fi \<Rightarrow> Some (fi, indexPathOf env filename n)
             | Inl e \<Rightarrow> None))"
proof (induction names arbitrary: ctx)
  case Nil
  then show ?case by simp
next
  case (Cons n names)
  let ?path = "indexPathOf env filename n"
  show ?case
  proof (cases "fileHidden (Getwd env) ?path (transformHidePaths env spec)")
    case True
    then have "\<not> usableIndex env spec filename n" by (simp add: usableIndex_def)
    moreover have "fst (indexLoop env spec (transformHidePaths env spec) filename (n # names) ctx)
        = fst (indexLoop env spec (transformHidePaths env spec) filename names ctx)"
      using True by (simp add: Let_def indexPathOf_def)
    ultimately show ?thesis using Cons.IH [of ctx] by simp
  next
    case False
    show ?thesis
    proof (cases "fsStat (fileSystem spec) ?path")
      case (Inl e)
      then have "\<not> usableIndex env spec filename n" by (simp add: usableIndex_def)
      moreover have "fst (indexLoop env spec (transformHidePaths env spec) filename (n # names) ctx)
          = fst (indexLoop env spec (transformHidePaths env spec) filename names
                   (logEvent (StatCall ?path) ctx))"
        using False Inl by (simp add: Let_def indexPathOf_def)
      ultimately show ?thesis using Cons.IH [of "logEvent (StatCall ?path) ctx"] by simp
    next
      case (Inr fi)
      then have "usableIndex env spec filename n" using False by (simp add: usableIndex_def)
      moreover have "fst (indexLoop env spec (transformHidePaths env spec) filename (n # names) ctx)
          = Some (fi, ?path)"
        using False Inr by (simp add: Let_def indexPathOf_def)
      ultimately show ?thesis using Inr by simp
    qed
  qed
qed

lemma resolveFile_stat_ok:
  assumes "fsStat (fileSystem spec) (SanitizedPathJoin (ReplaceAll env (Root spec) ''.'') p) = Inr info0"
  shows "resolveFile env spec p ctx
     = (let filesToHide = transformHidePaths env spec;
            filename = SanitizedPathJoin (ReplaceAll env (Root spec) ''.'') p;
            ctx1 = logEvent (StatCall filename) ctx;
            found = (if IsDir info0 \<and> length (IndexNames spec) > 0
                     then indexLoop env spec filesToHide filename (IndexNames spec) ctx1
                     else (None, ctx1));
            info = (case fst found of Some (indexInfo, indexPath) \<Rightarrow> indexInfo | None \<Rightarrow> info0);
            filename' = (case fst found of Some (indexInfo, indexPath) \<Rightarrow> indexPath
                         | None \<Rightarrow> filename)
        in if IsDir info then
             Inl (resultNotFound, SetStatusCode StatusNotFound (AddTag ''not found'' (snd found)))
           else if fileHidden (Getwd env) filename' filesToHide then
             Inl (resultNotFound, SetStatusCode StatusNotFound (AddTag ''not found'' (snd found)))
           else Inr (info, filename', snd found))"
  unfolding resolveFile_def Let_def assms by simp

lemma usableIndex_find:
  "find (usableIndex env spec filename) names = Some n \<Longrightarrow> usableIndex env spec filename n"
  by (metis find_Some_iff)

text \<open>
  Claim C9.  The loop over \<open>IndexNames\<close> selects the first candidate, in the order of the
  list, that is not hidden and whose stat succeeds.  When the request resolves to a
  directory and no candidate is usable, the outcome is \<open>notFound\<close> with status 404; when
  the first usable candidate is a file, the handler goes on to serve that file.
\<close>

theorem handle_index_selection:
  "fst (indexLoop env spec (transformHidePaths env spec) filename names ctx0)
     = (case find (usableIndex env spec filename) names of
          None \<Rightarrow> None
        | Some n \<Rightarrow>
            (case fsStat (fileSystem spec) (indexPathOf env filename n) of
               Inr fi \<Rightarrow> Some (fi, indexPathOf env filename n)
             | Inl e \<Rightarrow> None))
   \<and> (requestGuard (GOOS env) (Path r) = None
       \<and> fsStat (fileSystem spec) (SanitizedPathJoin (ReplaceAll env (Root spec) ''.'') (Path r))
           = Inr info0
       \<and> IsDir info0 \<longrightarrow>
       (find (usableIndex env spec (SanitizedPathJoin (ReplaceAll env (Root spec) ''.'') (Path r)))
              (IndexNames spec) = None
          \<longrightarrow> fst (handle env spec r ctx) = resultNotFound
              \<and> statusCode (snd (handle env spec r ctx)) = Some 404)
       \<and> (find (usableIndex env spec (SanitizedPathJoin (ReplaceAll env (Root spec) ''.'') (Path r)))
              (IndexNames spec) = Some n
           \<and> fsStat (fileSystem spec)
                (indexPathOf env (SanitizedPathJoin (ReplaceAll env (Root spec) ''.'') (Path r)) n)
               = Inr fi
           \<and> \<not> IsDir fi
          \<longrightarrow> (\<exists>ctx'. handle env spec r ctx
                   = serveFile env spec r fi
                       (indexPathOf env (SanitizedPathJoin (ReplaceAll env (Root spec) ''.'') (Path r)) n)
                       ctx')))"
proof -
  let ?f = "SanitizedPathJoin (ReplaceAll env (Root spec) ''.'') (Path r)"
  let ?hide = "transformHidePaths env spec"
  let ?ctx1 = "logEvent (StatCall ?f) ctx"
  have a: "fst (indexLoop env spec ?hide filename names ctx0)
     = (case find (usableIndex env spec filename) names of
          None \<Rightarrow> None
        | Some n \<Rightarrow>
            (case fsStat (fileSystem spec) (indexPathOf env filename n) of
               Inr fi \<Rightarrow> Some (fi, indexPathOf env filename n)
             | Inl e \<Rightarrow> None))"
    by (rule indexLoop_find)
  have b: "(find (usableIndex env spec ?f) (IndexNames spec) = None
          \<longrightarrow> fst (handle env spec r ctx) = resultNotFound
              \<and> statusCode (snd (handle env spec r ctx)) = Some 404)
       \<and> (find (usableIndex env spec ?f) (IndexNames spec) = Some n
           \<and> fsStat (fileSystem spec) (indexPathOf env ?f n) = Inr fi \<and> \<not> IsDir fi
          \<longrightarrow> (\<exists>ctx'. handle env spec r ctx
                   = serveFile env spec r fi (indexPathOf env ?f n) ctx'))"
    if g: "requestGuard (GOOS env) (Path r) = None"
      and st: "fsStat (fileSystem spec) ?f = Inr info0" and d: "IsDir info0"
  proof -
    let ?found = "if IsDir info0 \<and> length (IndexNames spec) > 0
                  then indexLoop env spec ?hide ?f (IndexNames spec) ?ctx1 else (None, ?ctx1)"
    have h: "handle env spec r ctx = (case resolveFile env spec (Path r) ctx of
             Inl out \<Rightarrow> out
           | Inr (info, filename, ctx') \<Rightarrow> serveFile env spec r info filename ctx')"
      using g by (simp add: handle_def)
    have ff: "fst ?found = (case find (usableIndex env spec ?f) (IndexNames spec) of
          None \<Rightarrow> None
        | Some n \<Rightarrow>
            (case fsStat (fileSystem spec) (indexPathOf env ?f n) of
               Inr fi \<Rightarrow> Some (fi, indexPathOf env ?f n)
             | Inl e \<Rightarrow> None))"
    proof (cases "length (IndexNames spec) > 0")
      case True
      then show ?thesis using d indexLoop_find [of env spec ?f "IndexNames spec" ?ctx1] by simp
    next
      case False
      then show ?thesis by simp
    qed
    have none: "fst (handle env spec r ctx) = resultNotFound
              \<and> statusCode (snd (handle env spec r ctx)) = Some 404"
      if "find (usableIndex env spec ?f) (IndexNames spec) = None"
    proof -
      have "fst ?found = None" using ff that by simp
      then have "resolveFile env spec (Path r) ctx
          = Inl (resultNotFound, SetStatusCode StatusNotFound (AddTag ''not found'' (snd ?found)))"
        unfolding resolveFile_stat_ok [OF st] Let_def using d by simp
      then show ?thesis unfolding h by (simp add: SetStatusCode_def StatusNotFound_def)
    qed
    have some: "\<exists>ctx'. handle env spec r ctx = serveFile env spec r fi (indexPathOf env ?f n) ctx'"
      if fd: "find (usableIndex env spec ?f) (IndexNames spec) = Some n"
        and si: "fsStat (fileSystem spec) (indexPathOf env ?f n) = Inr fi" and nd: "\<not> IsDir fi"
    proof -
      have fnd: "fst ?found = Some (fi, indexPathOf env ?f n)" using ff fd si by simp
      have "usableIndex env spec ?f n" using usableIndex_find [OF fd] .
      then have nh: "\<not> fileHidden (Getwd env) (indexPathOf env ?f n) ?hide"
        by (simp add: usableIndex_def)
      have "resolveFile env spec (Path r) ctx = Inr (fi, indexPathOf env ?f n, snd ?found)"
        unfolding resolveFile_stat_ok [OF st] Let_def fnd using nd nh by simp
      then have "handle env spec r ctx = serveFile env spec r fi (indexPathOf env ?f n) (snd ?found)"
        unfolding h by simp
      then show ?thesis by (rule exI)
    qed
    from none some show ?thesis by blast
  qed
  from a b show ?thesis by blast
qed

theorem handle_index_selection_witness:
  "requestGuard (GOOS (siteEnv ''linux'')) (Path \<lparr>Path = ''/'', Method = ''GET''\<rparr>) = None
   \<and> SanitizedPathJoin (ReplaceAll (siteEnv ''linux'') (Root (siteSpec [''index.html''])) ''.'')
         (Path \<lparr>Path = ''/'', Method = ''GET''\<rparr>) = ''/site''
   \<and> fsStat siteFS ''/site'' = Inr (dirInfo ''site'')
   \<and> IsDir (dirInfo ''site'')
   \<and> find (usableIndex (siteEnv ''linux'') (siteSpec [''index.html'']) ''/site'')
         (IndexNames (siteSpec [''index.html''])) = Some ''index.txt''
   \<and> fsStat siteFS (indexPathOf (siteEnv ''linux'') ''/site'' ''index.txt'')
       = Inr (fileInfo ''index.txt'' 9)
   \<and> \<not> IsDir (fileInfo ''index.txt'' 9)
   \<and> (\<exists>ctx'. handle (siteEnv ''linux'') (siteSpec [''index.html''])
                 \<lparr>Path = ''/'', Method = ''GET''\<rparr> emptyContext
               = serveFile (siteEnv ''linux'') (siteSpec [''index.html''])
                   \<lparr>Path = ''/'', Method = ''GET''\<rparr> (fileInfo ''index.txt'' 9)
                   (indexPathOf (siteEnv ''linux'') ''/site'' ''index.txt'') ctx')
   \<and> fst (indexLoop (siteEnv ''linux'') (siteSpec [''index.html''])
           (transformHidePaths (siteEnv ''linux'') (siteSpec [''index.html'']))
           ''/site'' [''index.html'', ''index.txt''] emptyContext)
       = Some (fileInfo ''index.txt'' 9, ''/site/index.txt'')
   \<and> find (usableIndex (siteEnv ''linux'') (siteSpec [''index.*'']) ''/site'')
         (IndexNames (siteSpec [''index.*''])) = None
   \<and> fst (handle (siteEnv ''linux'') (siteSpec [''index.*''])
           \<lparr>Path = ''/'', Method = ''GET''\<rparr> emptyContext) = resultNotFound
   \<and> statusCode (snd (handle (siteEnv ''linux'') (siteSpec [''index.*''])
           \<lparr>Path = ''/'', Method = ''GET''\<rparr> emptyContext)) = Some 404"
proof -
  let ?env = "siteEnv ''linux''"
  let ?r = "\<lparr>Path = ''/'', Method = ''GET''\<rparr>"
  let ?s1 = "siteSpec [''index.html'']"
  let ?s2 = "siteSpec [''index.*'']"
  note t = handle_index_selection [of ?env ?s1 "''/site''" "[''index.html'', ''index.txt'']"
      emptyContext ?r "dirInfo ''site''" emptyContext "''index.txt''" "fileInfo ''index.txt'' 9"]
  note u = handle_index_selection [of ?env ?s2 "''/site''" "[''index.html'', ''index.txt'']"
      emptyContext ?r "dirInfo ''site''" emptyContext "''index.txt''" "fileInfo ''index.txt'' 9"]
  have g: "requestGuard (GOOS ?env) (Path ?r) = None" by code_simp
  have f1: "SanitizedPathJoin (ReplaceAll ?env (Root ?s1) ''.'') (Path ?r) = ''/site''" by code_simp
  have f2: "SanitizedPathJoin (ReplaceAll ?env (Root ?s2) ''.'') (Path ?r) = ''/site''" by code_simp
  have fs1: "fileSystem ?s1 = siteFS" by (simp add: siteSpec_def)
  have fs2: "fileSystem ?s2 = siteFS" by (simp add: siteSpec_def)
  have st: "fsStat siteFS ''/site'' = Inr (dirInfo ''site'')" by code_simp
  have d: "IsDir (dirInfo ''site'')" by code_simp
  have fd: "find (usableIndex ?env ?s1 ''/site'') (IndexNames ?s1) = Some ''index.txt''"
    by code_simp
  have si: "fsStat siteFS (indexPathOf ?env ''/site'' ''index.txt'') = Inr (fileInfo ''index.txt'' 9)"
    by code_simp
  have nd: "\<not> IsDir (fileInfo ''index.txt'' 9)" by code_simp
  have ip: "indexPathOf ?env ''/site'' ''index.txt'' = ''/site/index.txt''" by code_simp
  have a: "\<exists>ctx'. handle ?env ?s1 ?r emptyContext
      = serveFile ?env ?s1 ?r (fileInfo ''index.txt'' 9) (indexPathOf ?env ''/site'' ''index.txt'') ctx'"
    using t [THEN conjunct2] g st d fd si nd unfolding f1 fs1 by blast
  have b: "fst (indexLoop ?env ?s1 (transformHidePaths ?env ?s1) ''/site''
      [''index.html'', ''index.txt''] emptyContext) = Some (fileInfo ''index.txt'' 9, ''/site/index.txt'')"
    by code_simp
  have fn: "find (usableIndex ?env ?s2 ''/site'') (IndexNames ?s2) = None" by code_simp
  have c: "fst (handle ?env ?s2 ?r emptyContext) = resultNotFound
     \<and> statusCode (snd (handle ?env ?s2 ?r emptyContext)) = Some 404"
    using u [THEN conjunct2] g st d fn unfolding f2 fs2 by blast
  from g f1 st d fd si nd a b fn c show ?thesis by blast
qed

end
